theory Spec2Isabelle
  imports Main "HOL-Library.Word" "HOL-Library.Multiset"
begin

section \<open>Library functions called by the sources\<close>

text \<open>
  Go strings are byte sequences; they are modelled as \<open>string\<close> (a list of 8-bit
  characters).
\<close>

text \<open>
  Modelled from the spec: \<open>log.Fatal\<close> of package common/log, which is not among the
  sources, ends the process (a malformed time window or URL makes the load of the
  configuration fail).  A run-time panic ends the goroutine.  Both are results of the
  model: every function that can stop this way returns \<open>error + 'a\<close>.
\<close>

datatype error = Fatal | IndexOutOfRange | DivideByZero

text \<open>
  \<open>strings.Fields\<close>, \<open>strings.ToUpper\<close> and \<open>strings.ToLower\<close> work on Unicode code
  points.  The functions of the sources take them as a parameter (a record of the
  three functions); \<open>ascii\<close> below is their behaviour on strings of ASCII bytes.
\<close>

record strings =
  Fields :: "string \<Rightarrow> string list"
  ToUpper :: "string \<Rightarrow> string"
  ToLower :: "string \<Rightarrow> string"

definition isASCII :: "char \<Rightarrow> bool" where
  "isASCII c = ((of_char c :: nat) < 128)"

definition asciiSpace :: "char \<Rightarrow> bool" where
  "asciiSpace c = ((of_char c :: nat) \<in> {9, 10, 11, 12, 13, 32})"

function asciiFields :: "string \<Rightarrow> string list" where
  "asciiFields [] = []"
| "asciiFields (c # s) =
     (if asciiSpace c then asciiFields s
      else takeWhile (\<lambda>x. \<not> asciiSpace x) (c # s)
             # asciiFields (dropWhile (\<lambda>x. \<not> asciiSpace x) (c # s)))"
  by pat_completeness auto
termination
  by (relation "measure length") (auto simp: less_Suc_eq_le length_dropWhile_le)

definition asciiUpper :: "char \<Rightarrow> char" where
  "asciiUpper c =
     (if 97 \<le> (of_char c :: nat) \<and> (of_char c :: nat) \<le> 122
      then char_of ((of_char c :: nat) - 32) else c)"

definition asciiLower :: "char \<Rightarrow> char" where
  "asciiLower c =
     (if 65 \<le> (of_char c :: nat) \<and> (of_char c :: nat) \<le> 90
      then char_of ((of_char c :: nat) + 32) else c)"

definition ascii :: strings where
  "ascii = \<lparr>Fields = asciiFields, ToUpper = map asciiUpper, ToLower = map asciiLower\<rparr>"

text \<open>A library agrees with Go's on ASCII input when it does what \<open>ascii\<close> does there.\<close>

definition ascii_exact :: "strings \<Rightarrow> bool" where
  "ascii_exact lib =
     (\<forall>s. list_all isASCII s \<longrightarrow>
        Fields lib s = asciiFields s \<and> ToUpper lib s = map asciiUpper s
        \<and> ToLower lib s = map asciiLower s)"

text \<open>\<open>strings.Split(s, sep)\<close> for a separator of one byte: the pieces between its occurrences.\<close>

fun Split :: "string \<Rightarrow> char \<Rightarrow> string list" where
  "Split [] sep = [[]]"
| "Split (x # xs) sep =
     (if x = sep then [] # Split xs sep
      else (case Split xs sep of [] \<Rightarrow> [[x]] | y # ys \<Rightarrow> (x # y) # ys))"

text \<open>
  \<open>strconv.Atoi\<close>: an optional sign, then one or more decimal digits, the value within
  the 64-bit \<open>int\<close>; \<open>None\<close> stands for a non-nil error.
\<close>

definition isDigit :: "char \<Rightarrow> bool" where
  "isDigit c = (48 \<le> (of_char c :: nat) \<and> (of_char c :: nat) \<le> 57)"

definition digitVal :: "char \<Rightarrow> nat" where
  "digitVal c = (of_char c :: nat) - 48"

fun atoi_digits :: "string \<Rightarrow> nat \<Rightarrow> nat option" where
  "atoi_digits [] n = Some n"
| "atoi_digits (ch # s) n =
     (if isDigit ch then atoi_digits s (n * 10 + digitVal ch) else None)"

definition Atoi :: "string \<Rightarrow> int option" where
  "Atoi s0 =
     (case s0 of
        [] \<Rightarrow> None
      | c # r \<Rightarrow>
          (let s = (if c = CHR ''-'' \<or> c = CHR ''+'' then r else s0) in
           if s = [] then None
           else (case atoi_digits s 0 of
                   None \<Rightarrow> None
                 | Some n \<Rightarrow>
                     (let v = (if c = CHR ''-'' then - int n else int n) in
                      if - (2 ^ 63) \<le> v \<and> v < 2 ^ 63 then Some v else None))))"

text \<open>\<open>fmt.Sprintf\<close> with the verbs \<open>%d\<close> and \<open>%02d\<close>.\<close>

definition digitChar :: "nat \<Rightarrow> char" where
  "digitChar d = ''0123456789'' ! d"

fun decimal :: "nat \<Rightarrow> string" where
  "decimal n = (if n < 10 then [digitChar n] else decimal (n div 10) @ [digitChar (n mod 10)])"

declare decimal.simps [simp del]

definition fmt_d :: "int \<Rightarrow> string" where
  "fmt_d i = (if i < 0 then CHR ''-'' # decimal (nat (- i)) else decimal (nat i))"

definition fmt_02d :: "int \<Rightarrow> string" where
  "fmt_02d i = (if 0 \<le> i \<and> i < 10 then CHR ''0'' # fmt_d i else fmt_d i)"

section \<open>Time windows (common/timewindow)\<close>

record TimeWindow =
  FromDay :: int
  ToDay :: int
  FromHour :: int
  FromMin :: int
  ToHour :: int
  ToMin :: int

text \<open>What \<open>Contains\<close> reads of a \<open>time.Time\<close>: the weekday (0 is Sunday), the hour and the minute.\<close>

record Time =
  Weekday :: int
  Hour :: int
  Minute :: int

definition parseDaysOfWeek :: "strings \<Rightarrow> string \<Rightarrow> error + (int \<times> int)" where
  "parseDaysOfWeek lib daysOfWeekString =
     (let u = ToUpper lib daysOfWeekString in
      if u = ''MON'' then Inr (1, 1)
      else if u = ''TUE'' then Inr (2, 2)
      else if u = ''WED'' then Inr (3, 3)
      else if u = ''THU'' then Inr (4, 4)
      else if u = ''FRI'' then Inr (5, 5)
      else if u = ''SAT'' then Inr (6, 6)
      else if u = ''SUN'' then Inr (7, 7)
      else
        (let daysOfWeek = Split daysOfWeekString CHR ''-'' in
         if length daysOfWeek \<noteq> 2 \<or> length (daysOfWeek ! 0) \<noteq> 1
            \<or> length (daysOfWeek ! 1) \<noteq> 1
         then Inl Fatal
         else (case Atoi (daysOfWeek ! 0) of
                 None \<Rightarrow> Inl Fatal
               | Some from \<Rightarrow>
                   (case Atoi (daysOfWeek ! 1) of
                      None \<Rightarrow> Inl Fatal
                    | Some to \<Rightarrow>
                        if from < 1 \<or> from > 7 \<or> to < 1 \<or> to > 7 then Inl Fatal
                        else Inr (from, to)))))"

definition parseTime :: "string \<Rightarrow> error + (int \<times> int)" where
  "parseTime timeString =
     (let timeTokens = Split timeString CHR '':'' in
      if length timeTokens \<noteq> 2 \<or> length (timeTokens ! 0) = 0 \<or> length (timeTokens ! 0) > 2
         \<or> length (timeTokens ! 1) = 0 \<or> length (timeTokens ! 1) > 2
      then Inl Fatal
      else (case Atoi (timeTokens ! 0) of
              None \<Rightarrow> Inl Fatal
            | Some hour \<Rightarrow>
                (case Atoi (timeTokens ! 1) of
                   None \<Rightarrow> Inl Fatal
                 | Some min' \<Rightarrow>
                     if hour < 0 \<or> hour > 23 \<or> min' < 0 \<or> min' > 59 then Inl Fatal
                     else Inr (hour, min'))))"

definition Contains :: "TimeWindow \<Rightarrow> Time \<Rightarrow> bool" where
  "Contains timeWindow t =
     (let weekday = (if Weekday t = 0 then 7 else Weekday t) in
      if weekday < FromDay timeWindow \<or> weekday > ToDay timeWindow then False
      else if Hour t < FromHour timeWindow \<or> Hour t > ToHour timeWindow then False
      else if Hour t = FromHour timeWindow \<and> Minute t < FromMin timeWindow then False
      else if Hour t = ToHour timeWindow \<and> Minute t > ToMin timeWindow then False
      else True)"

definition dayOfWeekNames :: "string list" where
  "dayOfWeekNames = [''XXX'', ''MON'', ''TUE'', ''WED'', ''THU'', ''FRI'', ''SAT'', ''SUN'']"

definition String :: "TimeWindow \<Rightarrow> error + string" where
  "String timeWindow =
     (let daysOfWeekString =
        (if FromDay timeWindow = ToDay timeWindow
         then (if 0 \<le> FromDay timeWindow \<and> FromDay timeWindow < 8
               then Inr (dayOfWeekNames ! nat (FromDay timeWindow))
               else Inl IndexOutOfRange)
         else Inr (fmt_d (FromDay timeWindow) @ ''-'' @ fmt_d (ToDay timeWindow)))
      in case daysOfWeekString of
           Inl e \<Rightarrow> Inl e
         | Inr d \<Rightarrow>
             Inr (d @ '' '' @ fmt_02d (FromHour timeWindow) @ '':'' @ fmt_02d (FromMin timeWindow)
                  @ '' '' @ fmt_02d (ToHour timeWindow) @ '':'' @ fmt_02d (ToMin timeWindow)))"

definition Parse :: "strings \<Rightarrow> string \<Rightarrow> error + TimeWindow" where
  "Parse lib timeWindowString =
     (let fields = Fields lib timeWindowString in
      if length fields \<noteq> 3 then Inl Fatal
      else (case parseDaysOfWeek lib (fields ! 0) of
              Inl e \<Rightarrow> Inl e
            | Inr (fromDay, toDay) \<Rightarrow>
                (case parseTime (fields ! 1) of
                   Inl e \<Rightarrow> Inl e
                 | Inr (fromHour, fromMin) \<Rightarrow>
                     (case parseTime (fields ! 2) of
                        Inl e \<Rightarrow> Inl e
                      | Inr (toHour, toMin) \<Rightarrow>
                          Inr \<lparr>FromDay = fromDay, ToDay = toDay, FromHour = fromHour,
                               FromMin = fromMin, ToHour = toHour, ToMin = toMin\<rparr>))))"

section \<open>Forwarders (strategy/forwarder.go, not among the sources)\<close>

text \<open>
  Modelled from the spec: the type \<open>Forwarder\<close> of forwarder.go, with the attributes that
  the spec lists and the strategy code reads through \<open>Addr()\<close>, \<open>Priority()\<close>, \<open>Enabled()\<close>
  and \<open>Latency()\<close>, and the two failure counters.  A forwarder is a heap object that the
  group reaches through pointers: the heap is a list of forwarder records and a pointer
  is an index into it.
\<close>

record Forwarder =
  Addr :: string
  Priority :: "32 word"
  Enabled :: bool
  Latency :: int
  Failures :: "32 word"
  FwdrMaxFailures :: "32 word"

type_synonym heap = "Forwarder list"

section \<open>Strategy groups (package strategy)\<close>

record Config =
  Strategy :: string
  CheckWebSite :: string
  CheckInterval :: int
  CheckTimeout :: int
  CheckDisabledOnly :: bool
  MaxFailures :: int
  DialTimeout :: int
  RelayTimeout :: int
  IntFace :: string
  ForwardTime :: "TimeWindow list"
  RejectTime :: "TimeWindow list"

text \<open>The function stored in the field \<open>next\<close> of a group, as a tag.\<close>

datatype scheduler = RR | HA | LHA | DH

record Proxy =
  name :: string
  config :: Config
  fwdrs :: "nat list"
  avail :: "nat list"
  rejectFwdr :: nat
  index :: "32 word"
  priority :: "32 word"
  nextf :: scheduler

text \<open>
  What the package takes from outside: \<open>ForwarderFromURL\<close> and \<open>DirectForwarder\<close> of
  forwarder.go (the first fails on a malformed URL) and the library's \<open>sort.Sort\<close>,
  which is given the order of \<open>priSlice\<close> (\<open>Less\<close>, on two forwarders of the slice) and
  the slice.
\<close>

record strategylib =
  ForwarderFromURL :: "string \<Rightarrow> string \<Rightarrow> int \<Rightarrow> int \<Rightarrow> Forwarder option"
  DirectForwarder :: "string \<Rightarrow> int \<Rightarrow> int \<Rightarrow> Forwarder"
  Sort :: "(nat \<Rightarrow> nat \<Rightarrow> bool) \<Rightarrow> nat list \<Rightarrow> nat list"

text \<open>\<open>time.Duration(n) * time.Second\<close>: a signed 64-bit product, in nanoseconds.\<close>

definition wrap64 :: "int \<Rightarrow> int" where
  "wrap64 i = (i + 2 ^ 63) mod 2 ^ 64 - 2 ^ 63"

definition Seconds :: "int \<Rightarrow> int" where
  "Seconds n = wrap64 (n * 1000000000)"

definition Less :: "heap \<Rightarrow> nat \<Rightarrow> nat \<Rightarrow> bool" where
  "Less h i j = (Priority (h ! i) > Priority (h ! j))"

definition SetPriority :: "Proxy \<Rightarrow> 32 word \<Rightarrow> Proxy" where
  "SetPriority p pri = p\<lparr>priority := pri\<rparr>"

text \<open>\<open>init\<close>: the first loop stops at the first enabled forwarder, the second collects.\<close>

definition init :: "heap \<Rightarrow> Proxy \<Rightarrow> Proxy" where
  "init h p =
     (let p1 = (case find (\<lambda>f. Enabled (h ! f)) (fwdrs p) of
                  Some f \<Rightarrow> SetPriority p (Priority (h ! f))
                | None \<Rightarrow> p);
          p2 = p1\<lparr>avail := filter (\<lambda>f. Enabled (h ! f) \<and> Priority (h ! f) \<ge> priority p1) (fwdrs p1)\<rparr>
      in if length (avail p2) = 0 then SetPriority p2 0 else p2)"

text \<open>The index of the first element equal to \<open>x\<close>, as the \<open>range\<close> loop with \<open>break\<close> finds it.\<close>

fun indexOf :: "nat list \<Rightarrow> nat \<Rightarrow> nat option" where
  "indexOf [] x = None"
| "indexOf (y # ys) x = (if y = x then Some 0 else map_option Suc (indexOf ys x))"

text \<open>
  \<open>p.avail[i], p.avail = p.avail[len(p.avail)-1], p.avail[:len(p.avail)-1]\<close>: the last
  element is written over position \<open>i\<close>, then the slice loses its last element.
\<close>

definition swapRemove :: "nat list \<Rightarrow> nat \<Rightarrow> nat list" where
  "swapRemove xs i = butlast (xs[i := last xs])"

definition onStatusChanged :: "heap \<Rightarrow> Proxy \<Rightarrow> nat \<Rightarrow> Proxy" where
  "onStatusChanged h p fwdr =
     (let p1 =
        (if Enabled (h ! fwdr) then
           (if Priority (h ! fwdr) = priority p then p\<lparr>avail := avail p @ [fwdr]\<rparr>
            else if Priority (h ! fwdr) > priority p then init h p
            else p)
         else
           (case indexOf (avail p) fwdr of
              Some i \<Rightarrow> p\<lparr>avail := swapRemove (avail p) i\<rparr>
            | None \<Rightarrow> p))
      in if length (avail p1) = 0 then init h p1 else p1)"

text \<open>
  Modelled from the spec: the methods of a forwarder (forwarder.go is not among the
  sources).  \<open>enable()\<close> and \<open>disable()\<close> flip the enabled flag, \<open>enable()\<close> resets the
  failure counter, and the observers run only when the flag has changed;
  \<open>incFailures()\<close> increments the counter and disables an enabled forwarder when the new
  value reaches the threshold.  The one observer a forwarder of a group has is the
  group's \<open>onStatusChanged\<close>, registered by \<open>newProxy\<close> on every member of \<open>fwdrs\<close>; the
  reject forwarder has none.
\<close>

definition fire :: "heap \<Rightarrow> Proxy \<Rightarrow> nat \<Rightarrow> Proxy" where
  "fire h p f = (if f \<in> set (fwdrs p) then onStatusChanged h p f else p)"

definition Enable :: "heap \<Rightarrow> Proxy \<Rightarrow> nat \<Rightarrow> heap \<times> Proxy" where
  "Enable h p f =
     (let h' = h[f := (h ! f)\<lparr>Enabled := True, Failures := 0\<rparr>]
      in if Enabled (h ! f) then (h', p) else (h', fire h' p f))"

definition Disable :: "heap \<Rightarrow> Proxy \<Rightarrow> nat \<Rightarrow> heap \<times> Proxy" where
  "Disable h p f =
     (let h' = h[f := (h ! f)\<lparr>Enabled := False\<rparr>]
      in if Enabled (h ! f) then (h', fire h' p f) else (h', p))"

definition IncFailures :: "heap \<Rightarrow> Proxy \<Rightarrow> nat \<Rightarrow> heap \<times> Proxy" where
  "IncFailures h p f =
     (let n = Failures (h ! f) + 1;
          h' = h[f := (h ! f)\<lparr>Failures := n\<rparr>]
      in if n = FwdrMaxFailures (h ! f) \<and> Enabled (h ! f) then Disable h' p f else (h', p))"

definition SetLatency :: "heap \<Rightarrow> nat \<Rightarrow> int \<Rightarrow> heap" where
  "SetLatency h f l = h[f := (h ! f)\<lparr>Latency := l\<rparr>]"

definition SetMaxFailures :: "Forwarder \<Rightarrow> 32 word \<Rightarrow> Forwarder" where
  "SetMaxFailures f n = f\<lparr>FwdrMaxFailures := n\<rparr>"

text \<open>The selectors.  An index out of range and a zero divisor are panics in Go.\<close>

definition scheduleRR :: "heap \<Rightarrow> Proxy \<Rightarrow> string \<Rightarrow> error + (nat \<times> Proxy)" where
  "scheduleRR h p dstAddr =
     (let i = index p + 1; n = (of_nat (length (avail p)) :: 32 word) in
      if n = 0 then Inl DivideByZero
      else if unat (i mod n) < length (avail p)
      then Inr (avail p ! unat (i mod n), p\<lparr>index := i\<rparr>)
      else Inl IndexOutOfRange)"

definition scheduleHA :: "heap \<Rightarrow> Proxy \<Rightarrow> string \<Rightarrow> error + (nat \<times> Proxy)" where
  "scheduleHA h p dstAddr =
     (if 0 < length (avail p) then Inr (avail p ! 0, p) else Inl IndexOutOfRange)"

fun lowestLatency :: "heap \<Rightarrow> nat list \<Rightarrow> nat \<Rightarrow> int \<Rightarrow> nat" where
  "lowestLatency h [] fwdr lowest = fwdr"
| "lowestLatency h (f # fs) fwdr lowest =
     (if Latency (h ! f) < lowest then lowestLatency h fs f (Latency (h ! f))
      else lowestLatency h fs fwdr lowest)"

definition scheduleLHA :: "heap \<Rightarrow> Proxy \<Rightarrow> string \<Rightarrow> error + (nat \<times> Proxy)" where
  "scheduleLHA h p dstAddr =
     (if 0 < length (avail p)
      then Inr (lowestLatency h (avail p) (avail p ! 0) (Latency (h ! (avail p ! 0))), p)
      else Inl IndexOutOfRange)"

text \<open>\<open>hash/fnv\<close>: the 32-bit FNV-1a hash of a byte string.\<close>

fun fnv1a :: "32 word \<Rightarrow> string \<Rightarrow> 32 word" where
  "fnv1a hash [] = hash"
| "fnv1a hash (c # cs) = fnv1a ((xor hash (of_char c)) * 16777619) cs"

definition Sum32 :: "string \<Rightarrow> 32 word" where
  "Sum32 s = fnv1a 2166136261 s"

definition scheduleDH :: "heap \<Rightarrow> Proxy \<Rightarrow> string \<Rightarrow> error + (nat \<times> Proxy)" where
  "scheduleDH h p dstAddr =
     (let n = (of_nat (length (avail p)) :: 32 word) in
      if n = 0 then Inl DivideByZero
      else if unat (Sum32 dstAddr mod n) < length (avail p)
      then Inr (avail p ! unat (Sum32 dstAddr mod n), p)
      else Inl IndexOutOfRange)"

definition callNext :: "heap \<Rightarrow> Proxy \<Rightarrow> string \<Rightarrow> error + (nat \<times> Proxy)" where
  "callNext h p dstAddr =
     (case nextf p of
        RR \<Rightarrow> scheduleRR h p dstAddr
      | HA \<Rightarrow> scheduleHA h p dstAddr
      | LHA \<Rightarrow> scheduleLHA h p dstAddr
      | DH \<Rightarrow> scheduleDH h p dstAddr)"

text \<open>The two loops of \<open>NextDialer\<close> over the time windows, each left at the first window that contains \<open>now\<close>.\<close>

fun anyContains :: "TimeWindow list \<Rightarrow> Time \<Rightarrow> bool" where
  "anyContains [] now = False"
| "anyContains (w # ws) now = (if Contains w now then True else anyContains ws now)"

definition timeAllowed :: "Proxy \<Rightarrow> Time \<Rightarrow> bool" where
  "timeAllowed p now =
     (let allowed = (if length (ForwardTime (config p)) = 0 then True
                     else anyContains (ForwardTime (config p)) now)
      in if \<not> allowed then False
         else if anyContains (RejectTime (config p)) now then False else allowed)"

text \<open>\<open>NextDialer\<close> returns the pointer of the chosen forwarder and the group with its new counter.\<close>

definition NextDialer :: "heap \<Rightarrow> Proxy \<Rightarrow> Time \<Rightarrow> string \<Rightarrow> error + (nat \<times> Proxy)" where
  "NextDialer h p now dstAddr =
     (if \<not> timeAllowed p now then Inr (rejectFwdr p, p)
      else if length (avail p) = 0 then
        (let i = index p + 1; n = (of_nat (length (fwdrs p)) :: 32 word) in
         if n = 0 then Inl DivideByZero
         else if unat (i mod n) < length (fwdrs p)
         then Inr (fwdrs p ! unat (i mod n), p\<lparr>index := i\<rparr>)
         else Inl IndexOutOfRange)
      else callNext h p dstAddr)"

definition OnRecord :: "heap \<Rightarrow> Proxy \<Rightarrow> nat \<Rightarrow> bool \<Rightarrow> heap \<times> Proxy" where
  "OnRecord h p dialer success =
     (if \<not> success then IncFailures h p dialer else Enable h p dialer)"

text \<open>
  \<open>newProxy\<close> gets the pointers of the forwarders, allocates the reject forwarder,
  sorts, runs \<open>init\<close> and picks the selector.
\<close>

definition newProxy :: "strategylib \<Rightarrow> heap \<Rightarrow> string \<Rightarrow> nat list \<Rightarrow> Config \<Rightarrow> error + (heap \<times> Proxy)" where
  "newProxy lib h name' fwdrs' c =
     (case ForwarderFromURL lib ''reject://'' [] 0 0 of
        None \<Rightarrow> Inl Fatal
      | Some r \<Rightarrow>
          (let h' = h @ [r];
               p = \<lparr>name = name', config = c, fwdrs = Sort lib (Less h') fwdrs', avail = [],
                    rejectFwdr = length h, index = 0, priority = 0, nextf = RR\<rparr>;
               p = init h' p;
               p = (if CHR '':'' \<notin> set (CheckWebSite (config p))
                    then p\<lparr>config := (config p)\<lparr>CheckWebSite := CheckWebSite (config p) @ '':80''\<rparr>\<rparr>
                    else p);
               p = p\<lparr>nextf := (if Strategy c = ''rr'' then RR
                                 else if Strategy c = ''ha'' then HA
                                 else if Strategy c = ''lha'' then LHA
                                 else if Strategy c = ''dh'' then DH
                                 else RR)\<rparr>
           in Inr (h', p)))"

text \<open>The first loop of \<open>NewProxy\<close>: one forwarder per URL, allocated in order; an error is fatal.\<close>

fun makeForwarders :: "strategylib \<Rightarrow> Config \<Rightarrow> heap \<Rightarrow> string list \<Rightarrow> nat list \<Rightarrow> error + (heap \<times> nat list)" where
  "makeForwarders lib c h [] fwdrs' = Inr (h, fwdrs')"
| "makeForwarders lib c h (chain # s) fwdrs' =
     (case ForwarderFromURL lib chain (IntFace c) (Seconds (DialTimeout c)) (Seconds (RelayTimeout c)) of
        None \<Rightarrow> Inl Fatal
      | Some fwdr \<Rightarrow>
          makeForwarders lib c (h @ [SetMaxFailures fwdr (of_int (MaxFailures c))]) s
            (fwdrs' @ [length h]))"

definition NewProxy :: "strategylib \<Rightarrow> heap \<Rightarrow> string \<Rightarrow> string list \<Rightarrow> Config \<Rightarrow> error + (heap \<times> Proxy)" where
  "NewProxy lib h name' s c =
     (case makeForwarders lib c h s [] of
        Inl e \<Rightarrow> Inl e
      | Inr (h1, fwdrs1) \<Rightarrow>
          if length fwdrs1 = 0
          then newProxy lib
                 (h1 @ [DirectForwarder lib (IntFace c) (Seconds (DialTimeout c)) (Seconds (RelayTimeout c))])
                 name' (fwdrs1 @ [length h1]) (c\<lparr>Strategy := ''rr''\<rparr>)
          else newProxy lib h1 name' fwdrs1 c)"

subsection \<open>The health check\<close>

text \<open>
  What one probe meets on the network: whether the dial and the write succeed, what
  \<open>io.ReadFull\<close> puts into the four-byte buffer (\<open>None\<close> for an error), and the
  duration \<open>time.Since(startTime)\<close> in nanoseconds.
\<close>

record probe =
  DialOK :: bool
  WriteOK :: bool
  ReadFull :: "string option"
  Since :: int

definition checkWebSite :: "heap \<Rightarrow> Proxy \<Rightarrow> nat \<Rightarrow> string \<Rightarrow> int \<Rightarrow> probe \<Rightarrow> bool \<times> heap \<times> Proxy" where
  "checkWebSite h p fwdr website timeout io =
     (if \<not> DialOK io then (False, Disable h p fwdr)
      else if \<not> WriteOK io then (False, Disable h p fwdr)
      else (case ReadFull io of
              None \<Rightarrow> (False, Disable h p fwdr)
            | Some buf \<Rightarrow>
                if ''HTTP'' \<noteq> buf then (False, Disable h p fwdr)
                else (let readTime = Since io;
                          h1 = SetLatency h fwdr readTime
                      in if readTime > timeout then (False, Disable h1 p fwdr)
                         else (True, Enable h1 p fwdr))))"

text \<open>
  One turn of the loop of \<open>check\<close>, after the sleep: the two \<open>continue\<close> tests, the probe,
  and the update of the 8-bit counter \<open>wait\<close>.
\<close>

definition checkTurn :: "heap \<Rightarrow> Proxy \<Rightarrow> nat \<Rightarrow> 8 word \<Rightarrow> probe \<Rightarrow> heap \<times> Proxy \<times> 8 word" where
  "checkTurn h p f wait io =
     (if wait > 0 \<and> Priority (h ! f) < priority p then (h, p, wait)
      else if Enabled (h ! f) \<and> CheckDisabledOnly (config p) then (h, p, wait)
      else (case checkWebSite h p f (CheckWebSite (config p)) (Seconds (CheckTimeout (config p))) io of
              (ok, h', p') \<Rightarrow>
                if ok then (h', p', 1)
                else (let wait = (if wait = 0 then 1 else wait);
                          wait = wait * 2;
                          wait = (if wait > 16 then 16 else wait)
                      in (h', p', wait))))"

text \<open>The loop never ends; its first turns, one per probe outcome of the list, from \<open>wait = 0\<close>.\<close>

fun checkTurns :: "heap \<Rightarrow> Proxy \<Rightarrow> nat \<Rightarrow> 8 word \<Rightarrow> probe list \<Rightarrow> heap \<times> Proxy \<times> 8 word" where
  "checkTurns h p f wait [] = (h, p, wait)"
| "checkTurns h p f wait (io # ios) =
     (case checkTurn h p f wait io of (h', p', wait') \<Rightarrow> checkTurns h' p' f wait' ios)"

definition check :: "heap \<Rightarrow> Proxy \<Rightarrow> nat \<Rightarrow> probe list \<Rightarrow> heap \<times> Proxy \<times> 8 word" where
  "check h p f ios = checkTurns h p f 0 ios"

subsection \<open>The states a group goes through\<close>

text \<open>
  From the state \<open>s0\<close> that \<open>NewProxy\<close> returns, the group and its forwarders change by
  the methods of the forwarders (each runs \<open>onStatusChanged\<close> when, and only when, the
  enabled flag has changed), by \<open>init\<close> and by \<open>NextDialer\<close>.
\<close>

inductive reach :: "heap \<times> Proxy \<Rightarrow> heap \<times> Proxy \<Rightarrow> bool" for s0 where
  reach_start: "reach s0 s0"
| reach_Enable: "reach s0 (h, p) \<Longrightarrow> f < length h \<Longrightarrow> reach s0 (Enable h p f)"
| reach_Disable: "reach s0 (h, p) \<Longrightarrow> f < length h \<Longrightarrow> reach s0 (Disable h p f)"
| reach_IncFailures: "reach s0 (h, p) \<Longrightarrow> f < length h \<Longrightarrow> reach s0 (IncFailures h p f)"
| reach_SetLatency: "reach s0 (h, p) \<Longrightarrow> f < length h \<Longrightarrow> reach s0 (SetLatency h f l, p)"
| reach_init: "reach s0 (h, p) \<Longrightarrow> reach s0 (h, init h p)"
| reach_NextDialer: "reach s0 (h, p) \<Longrightarrow> NextDialer h p now dstAddr = Inr (d, p') \<Longrightarrow> reach s0 (h, p')"

text \<open>What the theorems ask of \<open>sort.Sort\<close>: the result is a permutation of the input.\<close>

definition sort_permutes :: "strategylib \<Rightarrow> bool" where
  "sort_permutes lib = (\<forall>lt xs. mset (Sort lib lt xs) = mset xs)"

text \<open>The insertion sort that \<open>sort.Sort\<close> runs on a short slice, and a library instance with it.\<close>

fun insertLeft :: "(nat \<Rightarrow> nat \<Rightarrow> bool) \<Rightarrow> nat \<Rightarrow> nat list \<Rightarrow> nat list" where
  "insertLeft lt x [] = [x]"
| "insertLeft lt x (y # ys) = (if lt x y then y # insertLeft lt x ys else x # y # ys)"

definition insertionSort :: "(nat \<Rightarrow> nat \<Rightarrow> bool) \<Rightarrow> nat list \<Rightarrow> nat list" where
  "insertionSort lt xs = rev (foldl (\<lambda>acc x. insertLeft lt x acc) [] xs)"

definition plainForwarder :: "string \<Rightarrow> Forwarder" where
  "plainForwarder url =
     \<lparr>Addr = url, Priority = 0, Enabled = True, Latency = 0, Failures = 0, FwdrMaxFailures = 0\<rparr>"

definition testlib :: strategylib where
  "testlib = \<lparr>ForwarderFromURL = (\<lambda>url intface dial relay. if url = [] then None else Some (plainForwarder url)),
              DirectForwarder = (\<lambda>intface dial relay. plainForwarder ''DIRECT''),
              Sort = insertionSort\<rparr>"

section \<open>The rule router (package rule)\<close>

text \<open>
  The functions of package \<open>net\<close> that the router calls, as a parameter: the types of IP
  addresses and of networks stay abstract.
\<close>

record ('ip, 'net) netlib =
  SplitHostPort :: "string \<Rightarrow> (string \<times> string) option"
  ParseIP :: "string \<Rightarrow> 'ip option"
  IPString :: "'ip \<Rightarrow> string"
  ParseCIDR :: "string \<Rightarrow> 'net option"
  IPNetContains :: "'net \<Rightarrow> 'ip \<Rightarrow> bool"

record RuleConfig =
  Name :: string
  Forward :: "string list"
  StrategyConfig :: Config
  DNSServers :: "string list"
  IPSet :: string
  Domain :: "string list"
  IP :: "string list"
  CIDR :: "string list"

text \<open>
  A group is held by reference (\<open>'g\<close>).  The three \<open>sync.Map\<close>s: two maps from strings,
  and for the networks the list of the entries in the order in which \<open>Range\<close> visits
  them (each parsed network is a key of its own).
\<close>

record ('g, 'net) RuleProxy =
  proxy :: 'g
  proxies :: "'g list"
  domainMap :: "string \<rightharpoonup> 'g"
  ipMap :: "string \<rightharpoonup> 'g"
  cidrMap :: "('net \<times> 'g) list"

definition addRule ::
  "strings \<Rightarrow> ('ip, 'net) netlib \<Rightarrow> ('g, 'net) RuleProxy \<Rightarrow> RuleConfig \<Rightarrow> 'g \<Rightarrow> ('g, 'net) RuleProxy" where
  "addRule slib nlib rd r sd =
     rd\<lparr>proxies := proxies rd @ [sd],
        domainMap := fold (\<lambda>domain m. m(ToLower slib domain \<mapsto> sd)) (Domain r) (domainMap rd),
        ipMap := fold (\<lambda>ip m. m(ip \<mapsto> sd)) (IP r) (ipMap rd),
        cidrMap := fold (\<lambda>s m. case ParseCIDR nlib s of Some cidr \<Rightarrow> m @ [(cidr, sd)] | None \<Rightarrow> m)
                     (CIDR r) (cidrMap rd)\<rparr>"

text \<open>
  \<open>rule.NewProxy\<close>; \<open>newGroup r\<close> stands for \<open>strategy.NewProxy(r.Name, r.Forward,
  &r.StrategyConfig)\<close> and gives the reference of the new group.
\<close>

fun ruleLoop ::
  "strings \<Rightarrow> ('ip, 'net) netlib \<Rightarrow> (RuleConfig \<Rightarrow> error + 'g) \<Rightarrow> ('g, 'net) RuleProxy
     \<Rightarrow> RuleConfig list \<Rightarrow> error + ('g, 'net) RuleProxy" where
  "ruleLoop slib nlib newGroup rd [] = Inr rd"
| "ruleLoop slib nlib newGroup rd (r # rules) =
     (case newGroup r of
        Inl e \<Rightarrow> Inl e
      | Inr sd \<Rightarrow> ruleLoop slib nlib newGroup (addRule slib nlib rd r sd) rules)"

definition rule_NewProxy ::
  "strings \<Rightarrow> ('ip, 'net) netlib \<Rightarrow> (RuleConfig \<Rightarrow> error + 'g) \<Rightarrow> RuleConfig list \<Rightarrow> 'g
     \<Rightarrow> error + ('g, 'net) RuleProxy" where
  "rule_NewProxy slib nlib newGroup rules proxy' =
     ruleLoop slib nlib newGroup
       \<lparr>proxy = proxy', proxies = [], domainMap = Map.empty, ipMap = Map.empty, cidrMap = []\<rparr> rules"

text \<open>\<open>strings.LastIndexByte\<close> and \<open>strings.IndexByte\<close>: an index, or -1.\<close>

fun lastIndexFrom :: "string \<Rightarrow> char \<Rightarrow> int \<Rightarrow> int \<Rightarrow> int" where
  "lastIndexFrom [] c k found = found"
| "lastIndexFrom (x # xs) c k found = lastIndexFrom xs c (k + 1) (if x = c then k else found)"

definition LastIndexByte :: "string \<Rightarrow> char \<Rightarrow> int" where
  "LastIndexByte s c = lastIndexFrom s c 0 (- 1)"

fun indexFrom :: "string \<Rightarrow> char \<Rightarrow> int \<Rightarrow> int" where
  "indexFrom [] c k = - 1"
| "indexFrom (x # xs) c k = (if x = c then k else indexFrom xs c (k + 1))"

definition IndexByte :: "string \<Rightarrow> char \<Rightarrow> int" where
  "IndexByte s c = indexFrom s c 0"

lemma lastIndexFrom_bounds:
  "found < k \<Longrightarrow> - 1 \<le> found \<Longrightarrow>
     - 1 \<le> lastIndexFrom s c k found \<and> lastIndexFrom s c k found < k + int (length s)"
proof (induction s arbitrary: k found)
  case Nil
  then show ?case by simp
next
  case (Cons x xs)
  have "- 1 \<le> lastIndexFrom xs c (k + 1) (if x = c then k else found)
        \<and> lastIndexFrom xs c (k + 1) (if x = c then k else found) < (k + 1) + int (length xs)"
    using Cons.prems by (intro Cons.IH) auto
  then show ?case by simp
qed

lemma LastIndexByte_bounds: "- 1 \<le> LastIndexByte s c \<and> LastIndexByte s c < int (length s)"
  using lastIndexFrom_bounds [of "- 1" 0 s c] by (simp add: LastIndexByte_def)

text \<open>
  The loop of \<open>nextProxy\<close> over the domain map, from the value \<open>i\<close> of its variable.  A
  slice \<open>host[:i]\<close> with \<open>i\<close> out of range is a panic.
\<close>

function domainLoop :: "(string \<rightharpoonup> 'g) \<Rightarrow> string \<Rightarrow> int \<Rightarrow> error + 'g option" where
  "domainLoop dm host i =
     (if i = - 1 then Inr None
      else if i < 0 \<or> int (length host) < i then Inl IndexOutOfRange
      else (let i' = LastIndexByte (take (nat i) host) CHR ''.'' in
            case dm (drop (nat (i' + 1)) host) of
              Some g \<Rightarrow> Inr (Some g)
            | None \<Rightarrow> domainLoop dm host i'))"
  by pat_completeness auto
termination
proof (relation "measure (\<lambda>(dm, host, i). nat (i + 1))")
  show "wf (measure (\<lambda>(dm :: string \<rightharpoonup> 'g, host :: string, i :: int). nat (i + 1)))" by simp
next
  fix dm :: "string \<rightharpoonup> 'g" and host :: string and i i' :: int
  assume a: "i \<noteq> - 1" "\<not> (i < 0 \<or> int (length host) < i)"
    and i': "i' = LastIndexByte (take (nat i) host) CHR ''.''"
  have "- 1 \<le> i' \<and> i' < int (length (take (nat i) host))"
    unfolding i' by (rule LastIndexByte_bounds)
  then show "((dm, host, i'), (dm, host, i)) \<in> measure (\<lambda>(dm, host, i). nat (i + 1))"
    using a by auto
qed

declare domainLoop.simps [simp del]

definition nextProxy ::
  "strings \<Rightarrow> ('ip, 'net) netlib \<Rightarrow> ('g, 'net) RuleProxy \<Rightarrow> string \<Rightarrow> error + 'g" where
  "nextProxy slib nlib p dstAddr =
     (case SplitHostPort nlib dstAddr of
        None \<Rightarrow> Inr (proxy p)
      | Some (host, port) \<Rightarrow>
          (let byIP =
             (case ParseIP nlib host of
                None \<Rightarrow> None
              | Some ip \<Rightarrow>
                  (case ipMap p (IPString nlib ip) of
                     Some g \<Rightarrow> Some g
                   | None \<Rightarrow>
                       (case find (\<lambda>(cidr, g). IPNetContains nlib cidr ip) (cidrMap p) of
                          Some (cidr, g) \<Rightarrow> Some g
                        | None \<Rightarrow> None)))
           in case byIP of
                Some g \<Rightarrow> Inr g
              | None \<Rightarrow>
                  (let host = ToLower slib host in
                   case domainLoop (domainMap p) host (int (length host)) of
                     Inl e \<Rightarrow> Inl e
                   | Inr (Some g) \<Rightarrow> Inr g
                   | Inr None \<Rightarrow> Inr (proxy p))))"

text \<open>
  The keys that the amended claim lists for a host: the part after each dot, from the
  last dot to the first, then the whole host; and the group of the first key of a list
  that the map holds.
\<close>

definition probeKeys :: "string \<Rightarrow> string list" where
  "probeKeys host =
     map (\<lambda>j. drop (Suc j) host) (rev (filter (\<lambda>j. host ! j = CHR ''.'') [0..<length host])) @ [host]"

fun firstHit :: "(string \<rightharpoonup> 'g) \<Rightarrow> string list \<Rightarrow> 'g option" where
  "firstHit dm [] = None"
| "firstHit dm (k # ks) = (case dm k of Some g \<Rightarrow> Some g | None \<Rightarrow> firstHit dm ks)"

text \<open>
  \<open>net.SplitHostPort\<close>, and an instance of the library for rules without networks and
  destinations whose host is a name or a dotted-decimal IPv4 literal: \<open>ParseIP\<close> hands
  a text whose first separator is a colon to the IPv6 parser, which the instance leaves
  out (it answers \<open>None\<close>), as it leaves out \<open>ParseCIDR\<close>.
\<close>

definition goSplitHostPort :: "string \<Rightarrow> (string \<times> string) option" where
  "goSplitHostPort hostport =
     (let i = LastIndexByte hostport CHR '':'' in
      if i < 0 then None
      else
        (let bracket =
           (if hd hostport = CHR ''[''
            then (let end = IndexByte hostport CHR '']'' in
                  if end < 0 then None
                  else if end + 1 = int (length hostport) then None
                  else if end + 1 = i then Some (take (nat end - 1) (drop 1 hostport), 1, nat end + 1)
                  else None)
            else (let host = take (nat i) hostport in
                  if IndexByte host CHR '':'' \<ge> 0 then None else Some (host, 0, 0)))
         in case bracket of
              None \<Rightarrow> None
            | Some (host, j, k) \<Rightarrow>
                if IndexByte (drop j hostport) CHR ''['' \<ge> 0 then None
                else if IndexByte (drop k hostport) CHR '']'' \<ge> 0 then None
                else Some (host, drop (nat (i + 1)) hostport)))"

fun dtoiLoop :: "string \<Rightarrow> nat \<Rightarrow> nat \<Rightarrow> nat \<times> nat \<times> bool" where
  "dtoiLoop [] n i = (n, i, True)"
| "dtoiLoop (c # s) n i =
     (if isDigit c
      then (let n = n * 10 + digitVal c in
            if n \<ge> 16777215 then (16777215, i, False) else dtoiLoop s n (i + 1))
      else (n, i, True))"

definition dtoi :: "string \<Rightarrow> nat \<times> nat \<times> bool" where
  "dtoi s = (case dtoiLoop s 0 0 of (n, i, ok) \<Rightarrow>
               if \<not> ok then (n, i, ok) else if i = 0 then (0, 0, False) else (n, i, True))"

fun parseOctets :: "nat \<Rightarrow> bool \<Rightarrow> string \<Rightarrow> nat list option" where
  "parseOctets 0 first s = (if s = [] then Some [] else None)"
| "parseOctets (Suc k) first s =
     (if s = [] then None
      else if \<not> first \<and> hd s \<noteq> CHR ''.'' then None
      else (let s = (if first then s else tl s) in
            case dtoi s of (n, c, ok) \<Rightarrow>
              if \<not> ok \<or> n > 255 then None
              else map_option ((#) n) (parseOctets k False (drop c s))))"

definition parseIPv4 :: "string \<Rightarrow> nat list option" where
  "parseIPv4 s = parseOctets 4 True s"

definition goParseIP :: "string \<Rightarrow> nat list option" where
  "goParseIP s =
     (case find (\<lambda>c. c = CHR ''.'' \<or> c = CHR '':'') s of
        None \<Rightarrow> None
      | Some c \<Rightarrow> if c = CHR ''.'' then parseIPv4 s else None)"

fun dotted :: "nat list \<Rightarrow> string" where
  "dotted [] = []"
| "dotted [n] = decimal n"
| "dotted (n # ns) = decimal n @ ''.'' @ dotted ns"

definition ipv4net :: "(nat list, nat list \<times> nat) netlib" where
  "ipv4net =
     \<lparr>SplitHostPort = goSplitHostPort, ParseIP = goParseIP, IPString = dotted,
      ParseCIDR = (\<lambda>s. None), IPNetContains = (\<lambda>n ip. False)\<rparr>"

text \<open>The rules of the scenario: group \<open>R1\<close> on \<open>example.com\<close>, group \<open>R2\<close> on \<open>api.example.com\<close>, default \<open>D\<close>; a group is referred to by its name.\<close>

definition emptyConfig :: Config where
  "emptyConfig =
     \<lparr>Strategy = ''rr'', CheckWebSite = ''www.apple.com'', CheckInterval = 30, CheckTimeout = 10,
      CheckDisabledOnly = False, MaxFailures = 3, DialTimeout = 3, RelayTimeout = 0, IntFace = [],
      ForwardTime = [], RejectTime = []\<rparr>"

definition domainRule :: "string \<Rightarrow> string \<Rightarrow> RuleConfig" where
  "domainRule n d =
     \<lparr>Name = n, Forward = [], StrategyConfig = emptyConfig, DNSServers = [], IPSet = [],
      Domain = [d], IP = [], CIDR = []\<rparr>"

definition exampleRules :: "RuleConfig list" where
  "exampleRules = [domainRule ''R1'' ''example.com'', domainRule ''R2'' ''api.example.com'']"

definition byName :: "RuleConfig \<Rightarrow> error + string" where
  "byName r = Inr (Name r)"

definition exampleRouter :: "(string, nat list \<times> nat) RuleProxy" where
  "exampleRouter =
     \<lparr>proxy = ''D'', proxies = [''R1'', ''R2''],
      domainMap = [''example.com'' \<mapsto> ''R1'', ''api.example.com'' \<mapsto> ''R2''],
      ipMap = Map.empty, cidrMap = []\<rparr>"

section \<open>A group of three forwarders, for concrete runs\<close>

text \<open>
  The state that \<open>NewProxy\<close> returns for the URLs \<open>a\<close>, \<open>b\<close>, \<open>c\<close> with the library instance
  \<open>testlib\<close>, an empty heap and a configuration \<open>c\<close> of strategy \<open>rr\<close> whose check site
  names no port: the forwarders at the addresses 0, 1, 2 and the reject forwarder at 3.
\<close>

definition demoHeap :: "Config \<Rightarrow> heap" where
  "demoHeap c =
     [SetMaxFailures (plainForwarder ''a'') (of_int (MaxFailures c)),
      SetMaxFailures (plainForwarder ''b'') (of_int (MaxFailures c)),
      SetMaxFailures (plainForwarder ''c'') (of_int (MaxFailures c)),
      plainForwarder ''reject://'']"

definition demoGroup :: "Config \<Rightarrow> Proxy" where
  "demoGroup c =
     \<lparr>name = ''g'', config = c\<lparr>CheckWebSite := CheckWebSite c @ '':80''\<rparr>, fwdrs = [0, 1, 2],
      avail = [0, 1, 2], rejectFwdr = 3, index = 0, priority = 0, nextf = RR\<rparr>"

text \<open>The configuration of the time-window scenario: forward on Monday 09:00 to 17:00, reject on Monday 12:00 to 13:00.\<close>

definition windowConfig :: Config where
  "windowConfig =
     emptyConfig\<lparr>ForwardTime := [\<lparr>FromDay = 1, ToDay = 1, FromHour = 9, FromMin = 0, ToHour = 17, ToMin = 0\<rparr>],
                 RejectTime := [\<lparr>FromDay = 1, ToDay = 1, FromHour = 12, FromMin = 0, ToHour = 13, ToMin = 0\<rparr>]\<rparr>"

definition failedDial :: probe where
  "failedDial = \<lparr>DialOK = False, WriteOK = False, ReadFull = None, Since = 0\<rparr>"

definition answered :: "int \<Rightarrow> probe" where
  "answered t = \<lparr>DialOK = True, WriteOK = True, ReadFull = Some ''HTTP'', Since = t\<rparr>"

text \<open>The three forwarders disabled one after the other.\<close>

definition allDown :: "Config \<Rightarrow> heap \<times> Proxy" where
  "allDown c =
     (case Disable (demoHeap c) (demoGroup c) 0 of
        (h1, p1) \<Rightarrow> (case Disable h1 p1 1 of (h2, p2) \<Rightarrow> Disable h2 p2 2))"

section \<open>Auxiliary predicates of the proofs\<close>

text \<open>The positions of the dots of a host below \<open>i\<close>, the last one first.\<close>

definition dotsBelow :: "string \<Rightarrow> nat \<Rightarrow> nat list" where
  "dotsBelow host i = rev (filter (\<lambda>j. host ! j = CHR ''.'') [0..<i])"

text \<open>A field of a rendered time window: not empty, ASCII, no white space.\<close>

definition plain :: "string \<Rightarrow> bool" where
  "plain s = (s \<noteq> [] \<and> list_all (\<lambda>c. isASCII c \<and> \<not> asciiSpace c) s)"

text \<open>
  The invariant of a group: its list of forwarders and its reject forwarder are as
  \<open>NewProxy\<close> left them, the pointers are in the heap, the reject forwarder is not a
  member, and the available forwarders are members, each once, enabled and of at
  least the active priority.
\<close>

definition groupInv :: "nat list \<Rightarrow> nat \<Rightarrow> nat \<Rightarrow> heap \<times> Proxy \<Rightarrow> bool" where
  "groupInv fs rf n s =
     (case s of (h, p) \<Rightarrow>
        fwdrs p = fs \<and> rejectFwdr p = rf \<and> length h = n \<and> distinct fs \<and> fs \<noteq> []
        \<and> rf \<notin> set fs \<and> rf < n \<and> list_all (\<lambda>f. f < n) fs
        \<and> distinct (avail p) \<and> set (avail p) \<subseteq> set fs
        \<and> list_all (\<lambda>f. Enabled (h ! f) \<and> priority p \<le> Priority (h ! f)) (avail p))"

section \<open>Time windows: parsing and rendering\<close>

subsection \<open>Digits, fields and the parts of a rendered window\<close>


lemma digit_cases:
  "d < (10::nat) \<Longrightarrow> d = 0 \<or> d = 1 \<or> d = 2 \<or> d = 3 \<or> d = 4 \<or> d = 5 \<or> d = 6 \<or> d = 7 \<or> d = 8 \<or> d = 9"
  by arith

lemma of_char_digitChar: "d < 10 \<Longrightarrow> (of_char (digitChar d) :: nat) = 48 + d"
  by (drule digit_cases) (auto simp: digitChar_def)

lemma digitChar_neq: "d < 10 \<Longrightarrow> (of_char c :: nat) < 48 \<or> 57 < (of_char c :: nat) \<Longrightarrow> digitChar d \<noteq> c"
  using of_char_digitChar [of d] by auto

lemma isDigit_digitChar: "d < 10 \<Longrightarrow> isDigit (digitChar d)"
  by (simp add: isDigit_def of_char_digitChar)

lemma digitVal_digitChar: "d < 10 \<Longrightarrow> digitVal (digitChar d) = d"
  by (simp add: digitVal_def of_char_digitChar)

lemma not_space_digitChar: "d < 10 \<Longrightarrow> \<not> asciiSpace (digitChar d)"
  by (simp add: asciiSpace_def of_char_digitChar)

lemma isASCII_digitChar: "d < 10 \<Longrightarrow> isASCII (digitChar d)"
  by (simp add: isASCII_def of_char_digitChar)

lemma asciiUpper_digitChar: "d < 10 \<Longrightarrow> asciiUpper (digitChar d) = digitChar d"
  by (drule digit_cases) (auto simp: digitChar_def asciiUpper_def)

lemma decimal_small: "n < 10 \<Longrightarrow> decimal n = [digitChar n]"
  by (simp add: decimal.simps)

lemma decimal_two: "10 \<le> n \<Longrightarrow> n < 100 \<Longrightarrow> decimal n = [digitChar (n div 10), digitChar (n mod 10)]"
  by (subst decimal.simps) (simp add: decimal_small)

lemma fmt_d_small: "0 \<le> i \<Longrightarrow> i < 10 \<Longrightarrow> fmt_d i = [digitChar (nat i)]"
  by (simp add: fmt_d_def decimal_small)

lemma fmt_02d_two: "0 \<le> i \<Longrightarrow> i < 100 \<Longrightarrow> fmt_02d i = [digitChar (nat i div 10), digitChar (nat i mod 10)]"
proof (cases "i < 10")
  case True
  assume "0 \<le> i"
  with True have "fmt_02d i = [CHR ''0'', digitChar (nat i)]"
    by (simp add: fmt_02d_def fmt_d_small)
  moreover have "CHR ''0'' = digitChar 0" by (simp add: digitChar_def)
  ultimately show ?thesis using True \<open>0 \<le> i\<close> by simp
next
  case False
  assume "0 \<le> i" "i < 100"
  with False show ?thesis
    by (simp add: fmt_02d_def fmt_d_def decimal_two)
qed

lemma Atoi_one: "d < 10 \<Longrightarrow> Atoi [digitChar d] = Some (int d)"
  by (simp add: Atoi_def digitChar_neq isDigit_digitChar digitVal_digitChar)

lemma Atoi_two: "a < 10 \<Longrightarrow> b < 10 \<Longrightarrow> Atoi [digitChar a, digitChar b] = Some (int (a * 10 + b))"
  by (simp add: Atoi_def digitChar_neq isDigit_digitChar digitVal_digitChar)

lemma parseTime_fmt:
  assumes "0 \<le> h" "h \<le> 23" "0 \<le> m" "m \<le> 59"
  shows "parseTime (fmt_02d h @ '':'' @ fmt_02d m) = Inr (h, m)"
proof -
  define a b c d where "a = nat h div 10" and "b = nat h mod 10" and "c = nat m div 10" and "d = nat m mod 10"
  have lt: "a < 10" "b < 10" "c < 10" "d < 10" using assms by (auto simp: a_def b_def c_def d_def)
  have s: "fmt_02d h @ '':'' @ fmt_02d m = [digitChar a, digitChar b, CHR '':'', digitChar c, digitChar d]"
    using assms by (simp add: fmt_02d_two a_def b_def c_def d_def)
  have sp: "Split [digitChar a, digitChar b, CHR '':'', digitChar c, digitChar d] CHR '':''
     = [[digitChar a, digitChar b], [digitChar c, digitChar d]]"
    using lt by (simp add: digitChar_neq)
  have hv: "int (a * 10 + b) = h" "int (c * 10 + d) = m" using assms by (auto simp: a_def b_def c_def d_def)
  show ?thesis unfolding s parseTime_def sp using lt assms hv
    by (simp add: Atoi_two)
qed


lemma asciiFields_word:
  assumes "w \<noteq> []" "\<And>c. c \<in> set w \<Longrightarrow> \<not> asciiSpace c" "asciiSpace x"
  shows "asciiFields (w @ x # rest) = w # asciiFields rest"
proof -
  obtain c w' where w: "w = c # w'" using assms(1) by (cases w) auto
  have tw: "takeWhile (\<lambda>x. \<not> asciiSpace x) (w @ x # rest) = w"
    using assms(2,3) by (simp add: takeWhile_append2)
  have dw: "dropWhile (\<lambda>x. \<not> asciiSpace x) (w @ x # rest) = x # rest"
    using assms(2,3) by (simp add: dropWhile_append2)
  have "asciiFields (c # (w' @ x # rest)) = w # asciiFields (x # rest)"
    using tw dw assms(2) unfolding w by (subst asciiFields.simps) simp
  then show ?thesis using assms(3) by (simp add: w)
qed

lemma asciiFields_last:
  assumes "w \<noteq> []" "\<And>c. c \<in> set w \<Longrightarrow> \<not> asciiSpace c"
  shows "asciiFields w = [w]"
proof -
  obtain c w' where w: "w = c # w'" using assms(1) by (cases w) auto
  have nc: "\<not> asciiSpace c" using assms(2) by (simp add: w)
  have tw: "takeWhile (\<lambda>x. \<not> asciiSpace x) (c # w') = c # w'"
    using assms(2) unfolding w by (simp only: takeWhile_eq_all_conv) blast
  have dw: "dropWhile (\<lambda>x. \<not> asciiSpace x) (c # w') = []"
    using assms(2) unfolding w by (simp only: dropWhile_eq_Nil_conv) blast
  have "asciiFields (c # w') = takeWhile (\<lambda>x. \<not> asciiSpace x) (c # w')
          # asciiFields (dropWhile (\<lambda>x. \<not> asciiSpace x) (c # w'))"
    using nc by (simp only: asciiFields.simps if_False)
  also have "\<dots> = [c # w']" by (simp only: tw dw asciiFields.simps)
  finally show ?thesis by (simp only: w)
qed

lemma asciiFields_three:
  assumes "a \<noteq> []" "b \<noteq> []" "c \<noteq> []"
    and "\<And>x. x \<in> set a \<Longrightarrow> \<not> asciiSpace x"
    and "\<And>x. x \<in> set b \<Longrightarrow> \<not> asciiSpace x"
    and "\<And>x. x \<in> set c \<Longrightarrow> \<not> asciiSpace x"
  shows "asciiFields (a @ '' '' @ b @ '' '' @ c) = [a, b, c]"
proof -
  have sp: "asciiSpace CHR '' ''" by (simp add: asciiSpace_def)
  have "asciiFields (a @ CHR '' '' # (b @ CHR '' '' # c)) = a # asciiFields (b @ CHR '' '' # c)"
    using assms(1,4) sp by (rule asciiFields_word)
  also have "asciiFields (b @ CHR '' '' # c) = b # asciiFields c"
    using assms(2,5) sp by (rule asciiFields_word)
  also have "asciiFields c = [c]" using assms(3,6) by (rule asciiFields_last)
  finally show ?thesis by simp
qed

lemma plain_punct:
  "isASCII CHR '':''" "\<not> asciiSpace CHR '':''" "isASCII CHR ''-''" "\<not> asciiSpace CHR ''-''"
  by (simp_all add: isASCII_def asciiSpace_def)

lemma plain_time:
  assumes "0 \<le> h" "h \<le> 23" "0 \<le> m" "m \<le> 59"
  shows "plain (fmt_02d h @ '':'' @ fmt_02d m)"
  using assms
  by (simp add: fmt_02d_two plain_def isASCII_digitChar not_space_digitChar plain_punct)

lemma day_cases: "1 \<le> (n::int) \<Longrightarrow> n \<le> 7 \<Longrightarrow> n = 1 \<or> n = 2 \<or> n = 3 \<or> n = 4 \<or> n = 5 \<or> n = 6 \<or> n = 7"
  by arith

lemma plain_dayname: "1 \<le> n \<Longrightarrow> n \<le> 7 \<Longrightarrow> plain (dayOfWeekNames ! nat n)"
  by (drule (1) day_cases)
     (auto simp: dayOfWeekNames_def plain_def isASCII_def asciiSpace_def)

lemma upper_dayname:
  "1 \<le> n \<Longrightarrow> n \<le> 7 \<Longrightarrow> map asciiUpper (dayOfWeekNames ! nat n) = dayOfWeekNames ! nat n"
  by (drule (1) day_cases) (auto simp: dayOfWeekNames_def asciiUpper_def)

lemma parseDaysOfWeek_dayname:
  assumes "ToUpper lib (dayOfWeekNames ! nat n) = dayOfWeekNames ! nat n" "1 \<le> n" "n \<le> 7"
  shows "parseDaysOfWeek lib (dayOfWeekNames ! nat n) = Inr (n, n)"
  using day_cases [OF assms(2,3)] assms(1)
  by (auto simp: parseDaysOfWeek_def dayOfWeekNames_def)

lemma plain_range:
  assumes "1 \<le> n" "n \<le> 7" "1 \<le> m" "m \<le> 7"
  shows "plain (fmt_d n @ ''-'' @ fmt_d m)"
  using assms
  by (simp add: fmt_d_small plain_def isASCII_digitChar not_space_digitChar plain_punct)

lemma upper_range:
  assumes "1 \<le> n" "n \<le> 7" "1 \<le> m" "m \<le> 7"
  shows "map asciiUpper (fmt_d n @ ''-'' @ fmt_d m) = fmt_d n @ ''-'' @ fmt_d m"
  using assms by (simp add: fmt_d_small asciiUpper_digitChar) (simp add: asciiUpper_def)

lemma parseDaysOfWeek_range:
  assumes up: "ToUpper lib (fmt_d n @ ''-'' @ fmt_d m) = fmt_d n @ ''-'' @ fmt_d m"
    and "1 \<le> n" "n \<le> 7" "1 \<le> m" "m \<le> 7"
  shows "parseDaysOfWeek lib (fmt_d n @ ''-'' @ fmt_d m) = Inr (n, m)"
proof -
  have lt: "nat n < 10" "nat m < 10" using assms by auto
  have s: "fmt_d n @ ''-'' @ fmt_d m = [digitChar (nat n), CHR ''-'', digitChar (nat m)]"
    using assms by (simp add: fmt_d_small)
  have sp: "Split [digitChar (nat n), CHR ''-'', digitChar (nat m)] CHR ''-''
      = [[digitChar (nat n)], [digitChar (nat m)]]"
    using lt by (simp add: digitChar_neq)
  have ne: "digitChar (nat n) \<noteq> CHR ''M''" "digitChar (nat n) \<noteq> CHR ''T''"
    "digitChar (nat n) \<noteq> CHR ''W''" "digitChar (nat n) \<noteq> CHR ''F''" "digitChar (nat n) \<noteq> CHR ''S''"
    using lt by (simp_all add: digitChar_neq)
  show ?thesis
    using up assms(2-) lt ne unfolding s parseDaysOfWeek_def Let_def sp
    by (simp add: Atoi_one)
qed


lemma ascii_exact_ascii: "ascii_exact ascii"
  by (simp add: ascii_exact_def ascii_def)

lemma plainD:
  assumes "plain s"
  shows "s \<noteq> []" and "\<And>x. x \<in> set s \<Longrightarrow> \<not> asciiSpace x" and "list_all isASCII s"
  using assms by (auto simp: plain_def list_all_iff)

lemma parseDaysOfWeek_bounds:
  "parseDaysOfWeek lib s = Inr (a, b) \<Longrightarrow> 1 \<le> a \<and> a \<le> 7 \<and> 1 \<le> b \<and> b \<le> 7"
  by (auto simp: parseDaysOfWeek_def Let_def split: if_splits option.splits)

lemma parseTime_bounds:
  "parseTime s = Inr (h, m) \<Longrightarrow> 0 \<le> h \<and> h \<le> 23 \<and> 0 \<le> m \<and> m \<le> 59"
  by (auto simp: parseTime_def Let_def split: if_splits option.splits)

lemma Parse_fields:
  assumes "Fields lib s = [d, t1, t2]"
    and "parseDaysOfWeek lib d = Inr (fd, td)"
    and "parseTime t1 = Inr (fh, fm)" and "parseTime t2 = Inr (th, tm)"
  shows "Parse lib s = Inr \<lparr>FromDay = fd, ToDay = td, FromHour = fh, FromMin = fm,
                             ToHour = th, ToMin = tm\<rparr>"
  using assms by (simp add: Parse_def)

lemma Parse_rendered:
  assumes ex: "ascii_exact lib" and pd: "plain d"
    and d: "parseDaysOfWeek lib d = Inr (fd, td)"
    and b: "0 \<le> fh" "fh \<le> 23" "0 \<le> fm" "fm \<le> 59" "0 \<le> th" "th \<le> 23" "0 \<le> tm" "tm \<le> 59"
  shows "Parse lib (d @ '' '' @ fmt_02d fh @ '':'' @ fmt_02d fm @ '' '' @ fmt_02d th @ '':'' @ fmt_02d tm)
           = Inr \<lparr>FromDay = fd, ToDay = td, FromHour = fh, FromMin = fm, ToHour = th, ToMin = tm\<rparr>"
proof -
  let ?t1 = "fmt_02d fh @ '':'' @ fmt_02d fm" and ?t2 = "fmt_02d th @ '':'' @ fmt_02d tm"
  let ?s = "d @ '' '' @ ?t1 @ '' '' @ ?t2"
  have p1: "plain ?t1" and p2: "plain ?t2" using b by (simp_all only: plain_time)
  have sp: "isASCII CHR '' ''" by (simp add: isASCII_def)
  have "list_all isASCII ?s"
    using plainD(3) [OF pd] plainD(3) [OF p1] plainD(3) [OF p2] sp by simp
  then have "Fields lib ?s = asciiFields ?s" using ex by (simp only: ascii_exact_def)
  also have "\<dots> = [d, ?t1, ?t2]"
    by (rule asciiFields_three) (rule plainD [OF pd] plainD [OF p1] plainD [OF p2] | assumption)+
  finally have f: "Fields lib (d @ '' '' @ ?t1 @ '' '' @ ?t2) = [d, ?t1, ?t2]" by simp
  have t1: "parseTime ?t1 = Inr (fh, fm)" and t2: "parseTime ?t2 = Inr (th, tm)"
    using b by (simp_all only: parseTime_fmt)
  show ?thesis
    using Parse_fields [OF f d t1 t2] by simp
qed

subsection \<open>Rendering, then parsing\<close>

lemma day_field:
  assumes ex: "ascii_exact lib" and fd: "1 \<le> a" "a \<le> 7" and td: "1 \<le> b" "b \<le> 7"
  defines "d \<equiv> (if a = b then dayOfWeekNames ! nat a else fmt_d a @ ''-'' @ fmt_d b)"
  shows "plain d \<and> parseDaysOfWeek lib d = Inr (a, b)"
proof (cases "a = b")
  case True
  then have dd: "d = dayOfWeekNames ! nat a" by (simp add: d_def)
  have pd: "plain d" unfolding dd using fd by (rule plain_dayname)
  have "ToUpper lib d = map asciiUpper d"
    using ex plainD(3) [OF pd] by (simp only: ascii_exact_def)
  then have "ToUpper lib (dayOfWeekNames ! nat a) = dayOfWeekNames ! nat a"
    unfolding dd using fd by (simp only: upper_dayname)
  then have "parseDaysOfWeek lib (dayOfWeekNames ! nat a) = Inr (a, a)"
    using fd by (rule parseDaysOfWeek_dayname)
  then show ?thesis using pd True by (simp add: dd)
next
  case False
  then have dd: "d = fmt_d a @ ''-'' @ fmt_d b" by (simp add: d_def)
  have pd: "plain d" unfolding dd using fd td by (rule plain_range)
  have "ToUpper lib d = map asciiUpper d"
    using ex plainD(3) [OF pd] by (simp only: ascii_exact_def)
  then have "ToUpper lib (fmt_d a @ ''-'' @ fmt_d b) = fmt_d a @ ''-'' @ fmt_d b"
    unfolding dd using fd td by (simp only: upper_range)
  then have "parseDaysOfWeek lib (fmt_d a @ ''-'' @ fmt_d b) = Inr (a, b)"
    using fd td by (rule parseDaysOfWeek_range)
  then show ?thesis using pd by (simp add: dd)
qed

text \<open>
  Claim C9.  For every time window with days in 1..7, hours in 0..23 and minutes in
  0..59, \<open>String\<close> returns a text and \<open>Parse\<close> of that text returns the window itself.
  The text is the name of the day when the two days are equal and \<open>N-M\<close> otherwise, then
  the two times, each as two digits, a colon and two digits.  The library is any one
  that does on ASCII text what Go's does.
\<close>

theorem String_Parse_roundtrip:
  assumes ex: "ascii_exact lib"
    and fd: "1 \<le> FromDay tw" "FromDay tw \<le> 7" and td: "1 \<le> ToDay tw" "ToDay tw \<le> 7"
    and fh: "0 \<le> FromHour tw" "FromHour tw \<le> 23" and th: "0 \<le> ToHour tw" "ToHour tw \<le> 23"
    and fm: "0 \<le> FromMin tw" "FromMin tw \<le> 59" and tm: "0 \<le> ToMin tw" "ToMin tw \<le> 59"
  shows "\<exists>s. String tw = Inr s \<and> Parse lib s = Inr (tw :: TimeWindow)
             \<and> s = (if FromDay tw = ToDay tw then dayOfWeekNames ! nat (FromDay tw)
                    else [digitChar (nat (FromDay tw)), CHR ''-'', digitChar (nat (ToDay tw))])
                   @ '' '' @ [digitChar (nat (FromHour tw) div 10), digitChar (nat (FromHour tw) mod 10)]
                   @ '':'' @ [digitChar (nat (FromMin tw) div 10), digitChar (nat (FromMin tw) mod 10)]
                   @ '' '' @ [digitChar (nat (ToHour tw) div 10), digitChar (nat (ToHour tw) mod 10)]
                   @ '':'' @ [digitChar (nat (ToMin tw) div 10), digitChar (nat (ToMin tw) mod 10)]"
proof -
  define d where "d = (if FromDay tw = ToDay tw then dayOfWeekNames ! nat (FromDay tw)
                        else fmt_d (FromDay tw) @ ''-'' @ fmt_d (ToDay tw))"
  let ?s = "d @ '' '' @ fmt_02d (FromHour tw) @ '':'' @ fmt_02d (FromMin tw)
              @ '' '' @ fmt_02d (ToHour tw) @ '':'' @ fmt_02d (ToMin tw)"
  have str: "String tw = Inr ?s"
    using fd by (simp add: String_def d_def)
  have pd: "plain d" and pdw: "parseDaysOfWeek lib d = Inr (FromDay tw, ToDay tw)"
    using day_field [OF ex fd td] by (simp_all only: d_def)
  have "Parse lib ?s = Inr \<lparr>FromDay = FromDay tw, ToDay = ToDay tw, FromHour = FromHour tw,
          FromMin = FromMin tw, ToHour = ToHour tw, ToMin = ToMin tw\<rparr>"
    using ex pd pdw fh(1) fh(2) fm(1) fm(2) th(1) th(2) tm(1) tm(2) by (rule Parse_rendered)
  then have "Parse lib ?s = Inr tw" by simp
  moreover have "?s = (if FromDay tw = ToDay tw then dayOfWeekNames ! nat (FromDay tw)
                    else [digitChar (nat (FromDay tw)), CHR ''-'', digitChar (nat (ToDay tw))])
                   @ '' '' @ [digitChar (nat (FromHour tw) div 10), digitChar (nat (FromHour tw) mod 10)]
                   @ '':'' @ [digitChar (nat (FromMin tw) div 10), digitChar (nat (FromMin tw) mod 10)]
                   @ '' '' @ [digitChar (nat (ToHour tw) div 10), digitChar (nat (ToHour tw) mod 10)]
                   @ '':'' @ [digitChar (nat (ToMin tw) div 10), digitChar (nat (ToMin tw) mod 10)]"
    using fd td fh th fm tm by (simp add: d_def fmt_d_small fmt_02d_two)
  ultimately show ?thesis using str by blast
qed

theorem String_Parse_roundtrip_witness:
  "String \<lparr>FromDay = 1, ToDay = 1, FromHour = 9, FromMin = 0, ToHour = 17, ToMin = 5\<rparr>
     = Inr ''MON 09:00 17:05''
   \<and> Parse ascii ''MON 09:00 17:05''
     = Inr \<lparr>FromDay = 1, ToDay = 1, FromHour = 9, FromMin = 0, ToHour = 17, ToMin = 5\<rparr>
   \<and> String \<lparr>FromDay = 1, ToDay = 5, FromHour = 0, FromMin = 0, ToHour = 23, ToMin = 59\<rparr>
     = Inr ''1-5 00:00 23:59''
   \<and> Parse ascii ''1-5 00:00 23:59''
     = Inr \<lparr>FromDay = 1, ToDay = 5, FromHour = 0, FromMin = 0, ToHour = 23, ToMin = 59\<rparr>"
proof -
  let ?a = "\<lparr>FromDay = 1, ToDay = 1, FromHour = 9, FromMin = 0, ToHour = 17, ToMin = 5\<rparr>"
  let ?b = "\<lparr>FromDay = 1, ToDay = 5, FromHour = 0, FromMin = 0, ToHour = 23, ToMin = 59\<rparr>"
  have sa: "String ?a = Inr ''MON 09:00 17:05''"
    by (simp add: String_def dayOfWeekNames_def fmt_02d_def fmt_d_def decimal.simps digitChar_def)
  have sb: "String ?b = Inr ''1-5 00:00 23:59''"
    by (simp add: String_def dayOfWeekNames_def fmt_02d_def fmt_d_def decimal.simps digitChar_def)
  have "\<exists>s. String ?a = Inr s \<and> Parse ascii s = Inr ?a"
    using String_Parse_roundtrip [of ascii ?a] ascii_exact_ascii by auto
  moreover have "\<exists>s. String ?b = Inr s \<and> Parse ascii s = Inr ?b"
    using String_Parse_roundtrip [of ascii ?b] ascii_exact_ascii by auto
  ultimately show ?thesis using sa sb by simp
qed

subsection \<open>What a successful parse guarantees\<close>

lemma Parse_Inr_bounds:
  assumes p: "Parse lib s = Inr tw"
  shows "1 \<le> FromDay tw \<and> FromDay tw \<le> 7 \<and> 1 \<le> ToDay tw \<and> ToDay tw \<le> 7
      \<and> 0 \<le> FromHour tw \<and> FromHour tw \<le> 23 \<and> 0 \<le> ToHour tw \<and> ToHour tw \<le> 23
      \<and> 0 \<le> FromMin tw \<and> FromMin tw \<le> 59 \<and> 0 \<le> ToMin tw \<and> ToMin tw \<le> 59"
proof -
  from p obtain fd td fh fm th tm where
    d: "parseDaysOfWeek lib (Fields lib s ! 0) = Inr (fd, td)"
    and t1: "parseTime (Fields lib s ! 1) = Inr (fh, fm)"
    and t2: "parseTime (Fields lib s ! 2) = Inr (th, tm)"
    and tw: "tw = \<lparr>FromDay = fd, ToDay = td, FromHour = fh, FromMin = fm, ToHour = th, ToMin = tm\<rparr>"
    by (auto simp: Parse_def Let_def split: if_splits sum.splits prod.splits)
  show ?thesis
    using parseDaysOfWeek_bounds [OF d] parseTime_bounds [OF t1] parseTime_bounds [OF t2]
    by (simp add: tw)
qed

lemma Parse_range_any_order:
  assumes ex: "ascii_exact lib" and n: "1 \<le> n" "n \<le> 7" and m: "1 \<le> m" "m \<le> 7"
  shows "Parse lib (fmt_d n @ ''-'' @ fmt_d m @ '' 00:00 23:59'')
          = Inr \<lparr>FromDay = n, ToDay = m, FromHour = 0, FromMin = 0, ToHour = 23, ToMin = 59\<rparr>"
proof -
  let ?d = "fmt_d n @ ''-'' @ fmt_d m"
  have pd: "plain ?d" using n m by (rule plain_range)
  have "ToUpper lib ?d = map asciiUpper ?d"
    using ex plainD(3) [OF pd] by (simp only: ascii_exact_def)
  then have up: "ToUpper lib ?d = ?d" using n m by (simp only: upper_range)
  have pdw: "parseDaysOfWeek lib ?d = Inr (n, m)"
    using up n m by (rule parseDaysOfWeek_range)
  have z: "fmt_02d 0 = ''00''" "fmt_02d 23 = ''23''" "fmt_02d 59 = ''59''"
    by (simp_all add: fmt_02d_def fmt_d_def decimal.simps digitChar_def)
  have "Parse lib (?d @ '' '' @ fmt_02d 0 @ '':'' @ fmt_02d 0 @ '' '' @ fmt_02d 23 @ '':'' @ fmt_02d 59)
          = Inr \<lparr>FromDay = n, ToDay = m, FromHour = 0, FromMin = 0, ToHour = 23, ToMin = 59\<rparr>"
    by (rule Parse_rendered [OF ex pd pdw]) simp_all
  then show ?thesis by (simp add: z)
qed

text \<open>
  Claim C8, amended.  Every window that \<open>Parse\<close> returns has its days in 1..7, its hours
  in 0..23 and its minutes in 0..59, whatever the library functions do.  The order of the
  two days is not checked: a days field \<open>N-M\<close> with \<open>N > M\<close>, both in 1..7, is accepted and
  gives \<open>FromDay = N\<close>, \<open>ToDay = M\<close>.
\<close>

theorem Parse_bounds:
  "(Parse lib s = Inr tw \<longrightarrow>
      1 \<le> FromDay tw \<and> FromDay tw \<le> 7 \<and> 1 \<le> ToDay tw \<and> ToDay tw \<le> 7
      \<and> 0 \<le> FromHour tw \<and> FromHour tw \<le> 23 \<and> 0 \<le> ToHour tw \<and> ToHour tw \<le> 23
      \<and> 0 \<le> FromMin tw \<and> FromMin tw \<le> 59 \<and> 0 \<le> ToMin tw \<and> ToMin tw \<le> 59)
   \<and> (ascii_exact lib \<and> 1 \<le> m \<and> m < n \<and> n \<le> 7 \<longrightarrow>
        Parse lib (fmt_d n @ ''-'' @ fmt_d m @ '' 00:00 23:59'')
          = Inr \<lparr>FromDay = n, ToDay = m, FromHour = 0, FromMin = 0, ToHour = 23, ToMin = 59\<rparr>)"
  using Parse_Inr_bounds [of lib s tw] Parse_range_any_order [of lib n m] by auto

theorem Parse_bounds_witness:
  "Parse ascii ''1-5 09:00 17:30''
     = Inr \<lparr>FromDay = 1, ToDay = 5, FromHour = 9, FromMin = 0, ToHour = 17, ToMin = 30\<rparr>
   \<and> Parse ascii ''5-2 00:00 23:59''
     = Inr \<lparr>FromDay = 5, ToDay = 2, FromHour = 0, FromMin = 0, ToHour = 23, ToMin = 59\<rparr>"
proof -
  have a: "Parse ascii ''1-5 09:00 17:30''
     = Inr \<lparr>FromDay = 1, ToDay = 5, FromHour = 9, FromMin = 0, ToHour = 17, ToMin = 30\<rparr>"
    by (simp add: Parse_def ascii_def asciiSpace_def parseDaysOfWeek_def parseTime_def Atoi_def
        isDigit_def digitVal_def asciiUpper_def)
  show ?thesis
    using Parse_bounds [of ascii "''1-5 09:00 17:30''" _ 2 5] a ascii_exact_ascii
    by (simp add: fmt_d_def decimal.simps digitChar_def)
qed

text \<open>
  Claim C8 as stated fails: the days field \<open>5-2\<close> is parsed, and the window has
  \<open>FromDay = 5\<close> above \<open>ToDay = 2\<close>.
\<close>

theorem Parse_order_counterexample:
  "Parse ascii ''5-2 00:00 00:00''
     = Inr \<lparr>FromDay = 5, ToDay = 2, FromHour = 0, FromMin = 0, ToHour = 0, ToMin = 0\<rparr>
   \<and> \<not> FromDay \<lparr>FromDay = 5, ToDay = 2, FromHour = 0, FromMin = 0, ToHour = 0, ToMin = 0\<rparr>
        \<le> ToDay \<lparr>FromDay = 5, ToDay = 2, FromHour = 0, FromMin = 0, ToHour = 0, ToMin = 0\<rparr>"
  by (simp add: Parse_def ascii_def asciiSpace_def parseDaysOfWeek_def parseTime_def Atoi_def
      isDigit_def digitVal_def asciiUpper_def)

section \<open>The invariant of a group\<close>

subsection \<open>Removing from the available list\<close>

lemma indexOf_Some: "indexOf xs x = Some i \<Longrightarrow> i < length xs \<and> xs ! i = x"
  by (induction xs arbitrary: i) (auto split: if_splits)

lemma indexOf_None: "indexOf xs x = None \<Longrightarrow> x \<notin> set xs"
  by (induction xs) (auto split: if_splits)

lemma mset_butlast': "ys \<noteq> [] \<Longrightarrow> mset (butlast ys) = mset ys - {#last ys#}"
  by (induction ys rule: rev_induct) auto

lemma mset_swapRemove:
  assumes "i < length xs"
  shows "mset (swapRemove xs i) = mset (remove1 (xs ! i) xs)"
proof -
  let ?ys = "xs[i := last xs]"
  have ne: "?ys \<noteq> []" using assms by auto
  have xne: "xs \<noteq> []" using assms by auto
  have "last ?ys = ?ys ! (length xs - 1)" using ne by (simp add: last_conv_nth)
  also have "\<dots> = xs ! (length xs - 1)"
    using assms xne by (cases "i = length xs - 1") (simp_all add: last_conv_nth)
  also have "\<dots> = last xs" using xne by (simp add: last_conv_nth)
  finally have l: "last ?ys = last xs" .
  have "mset (swapRemove xs i) = mset ?ys - {#last xs#}"
    using mset_butlast' [OF ne] l by (simp add: swapRemove_def)
  also have "\<dots> = mset xs - {#xs ! i#}"
    using assms by (simp add: mset_update)
  finally show ?thesis by simp
qed

lemma swapRemove_distinct:
  assumes "i < length xs" "distinct xs"
  shows "distinct (swapRemove xs i) \<and> set (swapRemove xs i) = set xs - {xs ! i}"
proof -
  have m: "mset (swapRemove xs i) = mset (remove1 (xs ! i) xs)" using assms(1) by (rule mset_swapRemove)
  have "distinct (remove1 (xs ! i) xs)" using assms(2) by simp
  then have d: "distinct (swapRemove xs i)" using m by (metis mset_eq_imp_distinct_iff)
  have "set (swapRemove xs i) = set (remove1 (xs ! i) xs)" using m by (rule mset_eq_setD)
  then show ?thesis using d assms(2) by simp
qed


subsection \<open>The steps keep the invariant\<close>

lemma init_fields:
  "fwdrs (init h p) = fwdrs p" "rejectFwdr (init h p) = rejectFwdr p"
  "index (init h p) = index p" "config (init h p) = config p" "nextf (init h p) = nextf p"
  by (simp_all add: init_def Let_def SetPriority_def split: option.splits)

lemma init_avail:
  "distinct (fwdrs p) \<Longrightarrow> distinct (avail (init h p))"
  "set (avail (init h p)) \<subseteq> set (fwdrs p)"
  "list_all (\<lambda>f. Enabled (h ! f) \<and> priority (init h p) \<le> Priority (h ! f)) (avail (init h p))"
  by (auto simp: init_def Let_def SetPriority_def list_all_iff split: option.splits)

lemma groupInv_iff:
  "groupInv fs rf n (h, p) \<longleftrightarrow>
     fwdrs p = fs \<and> rejectFwdr p = rf \<and> length h = n \<and> distinct fs \<and> fs \<noteq> []
     \<and> rf \<notin> set fs \<and> rf < n \<and> list_all (\<lambda>f. f < n) fs
     \<and> distinct (avail p) \<and> set (avail p) \<subseteq> set fs
     \<and> list_all (\<lambda>f. Enabled (h ! f) \<and> priority p \<le> Priority (h ! f)) (avail p)"
  by (simp add: groupInv_def)

lemma groupInv_init:
  assumes "fwdrs p = fs" "rejectFwdr p = rf" "length h = n" "distinct fs" "fs \<noteq> []"
    "rf \<notin> set fs" "rf < n" "list_all (\<lambda>f. f < n) fs"
  shows "groupInv fs rf n (h, init h p)"
  using assms init_avail [where p = p and h = h] by (simp add: groupInv_iff init_fields)

lemma groupInv_onStatusChanged:
  assumes fr: "fwdrs p = fs" "rejectFwdr p = rf" "length h = n" "distinct fs" "fs \<noteq> []"
    "rf \<notin> set fs" "rf < n" "list_all (\<lambda>f. f < n) fs"
    and av: "distinct (avail p)" "set (avail p) \<subseteq> set fs"
    and others: "\<And>g. g \<in> set (avail p) \<Longrightarrow> g \<noteq> f \<Longrightarrow> Enabled (h ! g) \<and> priority p \<le> Priority (h ! g)"
    and fresh: "Enabled (h ! f) \<Longrightarrow> f \<notin> set (avail p)"
    and mem: "f \<in> set fs"
  shows "groupInv fs rf n (h, onStatusChanged h p f)"
proof -
  define p1 where "p1 =
        (if Enabled (h ! f) then
           (if Priority (h ! f) = priority p then p\<lparr>avail := avail p @ [f]\<rparr>
            else if Priority (h ! f) > priority p then init h p
            else p)
         else
           (case indexOf (avail p) f of
              Some i \<Rightarrow> p\<lparr>avail := swapRemove (avail p) i\<rparr>
            | None \<Rightarrow> p))"
  have res: "onStatusChanged h p f = (if length (avail p1) = 0 then init h p1 else p1)"
    by (simp add: onStatusChanged_def p1_def Let_def)
  have inv1: "groupInv fs rf n (h, p1)"
  proof (cases "Enabled (h ! f)")
    case True
    then have nf: "f \<notin> set (avail p)" by (rule fresh)
    then have all: "list_all (\<lambda>g. Enabled (h ! g) \<and> priority p \<le> Priority (h ! g)) (avail p)"
      using others by (auto simp: list_all_iff)
    show ?thesis
    proof (cases "Priority (h ! f) = priority p")
      case eq: True
      then have "p1 = p\<lparr>avail := avail p @ [f]\<rparr>" using True by (simp add: p1_def)
      then show ?thesis using fr av all nf mem True eq by (simp add: groupInv_iff)
    next
      case ne: False
      show ?thesis
      proof (cases "Priority (h ! f) > priority p")
        case gt: True
        then have "p1 = init h p" using True ne by (simp add: p1_def)
        then show ?thesis using groupInv_init [OF fr] by simp
      next
        case False
        then have "p1 = p" using True ne by (simp add: p1_def)
        then show ?thesis using fr av all by (simp add: groupInv_iff)
      qed
    qed
  next
    case False
    show ?thesis
    proof (cases "indexOf (avail p) f")
      case None
      then have "p1 = p" using False by (simp add: p1_def)
      moreover have "f \<notin> set (avail p)" using None by (rule indexOf_None)
      then have "list_all (\<lambda>g. Enabled (h ! g) \<and> priority p \<le> Priority (h ! g)) (avail p)"
        using others by (auto simp: list_all_iff)
      ultimately show ?thesis using fr av by (simp add: groupInv_iff)
    next
      case (Some i)
      then have p1: "p1 = p\<lparr>avail := swapRemove (avail p) i\<rparr>" using False by (simp add: p1_def)
      have i: "i < length (avail p)" "avail p ! i = f" using indexOf_Some [OF Some] by auto
      have sr: "distinct (swapRemove (avail p) i)" "set (swapRemove (avail p) i) = set (avail p) - {f}"
        using swapRemove_distinct [OF i(1) av(1)] i(2) by auto
      have "list_all (\<lambda>g. Enabled (h ! g) \<and> priority p \<le> Priority (h ! g)) (swapRemove (avail p) i)"
        using others sr(2) by (auto simp: list_all_iff)
      then show ?thesis using fr av sr by (auto simp: groupInv_iff p1)
    qed
  qed
  show ?thesis
  proof (cases "length (avail p1) = 0")
    case True
    have "groupInv fs rf n (h, init h p1)"
      using inv1 by (intro groupInv_init) (simp_all add: groupInv_iff)
    then show ?thesis using True res by simp
  next
    case False
    then show ?thesis using inv1 res by simp
  qed
qed


lemma groupInv_same_flags:
  assumes "groupInv fs rf n (h, p)" "length h' = length h"
    and "\<And>g. g \<in> set (avail p) \<Longrightarrow> Enabled (h' ! g) = Enabled (h ! g) \<and> Priority (h' ! g) = Priority (h ! g)"
  shows "groupInv fs rf n (h', p)"
  using assms by (auto simp: groupInv_iff list_all_iff)

lemma groupInv_flip:
  assumes inv: "groupInv fs rf n (h, p)" and f: "f < length h"
    and h': "h' = h[f := x]" and pri: "Priority x = Priority (h ! f)"
    and flip: "Enabled x \<noteq> Enabled (h ! f)"
  shows "groupInv fs rf n (h', fire h' p f)"
proof (cases "f \<in> set fs")
  case False
  then have "f \<notin> set (avail p)" using inv by (auto simp: groupInv_iff)
  then have "\<And>g. g \<in> set (avail p) \<Longrightarrow> h' ! g = h ! g"
    unfolding h' by (metis nth_list_update_neq)
  then have "groupInv fs rf n (h', p)"
    using inv by (intro groupInv_same_flags [OF inv]) (simp_all add: h')
  then show ?thesis using False inv by (simp add: fire_def groupInv_iff)
next
  case True
  have fr: "fwdrs p = fs" "rejectFwdr p = rf" "length h' = n" "distinct fs" "fs \<noteq> []"
    "rf \<notin> set fs" "rf < n" "list_all (\<lambda>f. f < n) fs"
    and av: "distinct (avail p)" "set (avail p) \<subseteq> set fs"
    using inv by (simp_all add: groupInv_iff h')
  have others: "\<And>g. g \<in> set (avail p) \<Longrightarrow> g \<noteq> f \<Longrightarrow> Enabled (h' ! g) \<and> priority p \<le> Priority (h' ! g)"
    using inv by (auto simp: groupInv_iff list_all_iff h')
  have fresh: "Enabled (h' ! f) \<Longrightarrow> f \<notin> set (avail p)"
  proof -
    assume "Enabled (h' ! f)"
    then have "\<not> Enabled (h ! f)" using flip f by (simp add: h')
    then show ?thesis using inv by (auto simp: groupInv_iff list_all_iff)
  qed
  have "groupInv fs rf n (h', onStatusChanged h' p f)"
    using fr av others fresh True by (rule groupInv_onStatusChanged)
  then show ?thesis using True fr(1) by (simp add: fire_def)
qed

lemma groupInv_update_same:
  assumes inv: "groupInv fs rf n (h, p)" and f: "f < length h"
    and pri: "Priority x = Priority (h ! f)" and en: "Enabled x = Enabled (h ! f)"
  shows "groupInv fs rf n (h[f := x], p)"
  using inv f pri en
  by (intro groupInv_same_flags [OF inv]) (auto simp: nth_list_update)

lemma groupInv_Enable:
  assumes "groupInv fs rf n (h, p)" "f < length h"
  shows "groupInv fs rf n (Enable h p f)"
proof (cases "Enabled (h ! f)")
  case True
  then show ?thesis
    using groupInv_update_same [OF assms, of "(h ! f)\<lparr>Enabled := True, Failures := 0\<rparr>"]
    by (simp add: Enable_def)
next
  case False
  then show ?thesis
    using groupInv_flip [OF assms refl, of "(h ! f)\<lparr>Enabled := True, Failures := 0\<rparr>"]
    by (simp add: Enable_def Let_def)
qed

lemma groupInv_Disable:
  assumes "groupInv fs rf n (h, p)" "f < length h"
  shows "groupInv fs rf n (Disable h p f)"
proof (cases "Enabled (h ! f)")
  case False
  then show ?thesis
    using groupInv_update_same [OF assms, of "(h ! f)\<lparr>Enabled := False\<rparr>"]
    by (simp add: Disable_def)
next
  case True
  then show ?thesis
    using groupInv_flip [OF assms refl, of "(h ! f)\<lparr>Enabled := False\<rparr>"]
    by (simp add: Disable_def Let_def)
qed

lemma groupInv_IncFailures:
  assumes "groupInv fs rf n (h, p)" "f < length h"
  shows "groupInv fs rf n (IncFailures h p f)"
proof -
  let ?h = "h[f := (h ! f)\<lparr>Failures := Failures (h ! f) + 1\<rparr>]"
  have i: "groupInv fs rf n (?h, p)"
    using groupInv_update_same [OF assms, of "(h ! f)\<lparr>Failures := Failures (h ! f) + 1\<rparr>"] by simp
  have d: "groupInv fs rf n (Disable ?h p f)"
    using i assms(2) by (intro groupInv_Disable) simp_all
  let ?c = "Failures (h ! f) + 1 = FwdrMaxFailures (h ! f) \<and> Enabled (h ! f)"
  have eq: "IncFailures h p f = (if ?c then Disable ?h p f else (?h, p))"
    by (simp only: IncFailures_def Let_def)
  show ?thesis
  proof (cases ?c)
    case True
    have "IncFailures h p f = Disable ?h p f" unfolding eq using True by (rule if_P)
    then show ?thesis using d by (simp only:)
  next
    case False
    have "IncFailures h p f = (?h, p)" unfolding eq using False by (rule if_not_P)
    then show ?thesis using i by (simp only:)
  qed
qed

lemma groupInv_SetLatency:
  assumes "groupInv fs rf n (h, p)" "f < length h"
  shows "groupInv fs rf n (SetLatency h f l, p)"
  using groupInv_update_same [OF assms, of "(h ! f)\<lparr>Latency := l\<rparr>"] by (simp add: SetLatency_def)

lemma NextDialer_group:
  assumes "NextDialer h p now dstAddr = Inr (d, p')"
  shows "p' = p \<or> p' = p\<lparr>index := index p + 1\<rparr>"
  using assms
  by (auto simp: NextDialer_def callNext_def scheduleRR_def scheduleHA_def scheduleLHA_def
      scheduleDH_def Let_def split: if_splits scheduler.splits)

lemma groupInv_NextDialer:
  assumes "groupInv fs rf n (h, p)" "NextDialer h p now dstAddr = Inr (d, p')"
  shows "groupInv fs rf n (h, p')"
  using NextDialer_group [OF assms(2)] assms(1) by (auto simp: groupInv_iff)

lemma reach_groupInv:
  assumes "reach s0 s" "groupInv fs rf n s0"
  shows "groupInv fs rf n s"
  using assms
proof (induction rule: reach.induct)
  case reach_start
  then show ?case by simp
next
  case (reach_Enable h p f)
  then show ?case by (simp add: groupInv_Enable)
next
  case (reach_Disable h p f)
  then show ?case by (simp add: groupInv_Disable)
next
  case (reach_IncFailures h p f)
  then show ?case by (simp add: groupInv_IncFailures)
next
  case (reach_SetLatency h p f l)
  then show ?case by (simp add: groupInv_SetLatency)
next
  case (reach_init h p)
  then have "groupInv fs rf n (h, p)" by simp
  then show ?case by (intro groupInv_init) (simp_all add: groupInv_iff)
next
  case (reach_NextDialer h p now dstAddr d p')
  then show ?case using groupInv_NextDialer by blast
qed


text \<open>
  The other entry points take a group to states of the same kind: \<open>OnRecord\<close>, a probe
  of the health check, a turn of its loop.
\<close>

lemma reach_OnRecord:
  assumes "reach s0 (h, p)" "f < length h"
  shows "reach s0 (OnRecord h p f success)"
  using assms by (simp add: OnRecord_def reach_IncFailures reach_Enable)

lemma reach_checkWebSite:
  assumes r: "reach s0 (h, p)" and f: "f < length h"
  shows "reach s0 (snd (checkWebSite h p f website timeout io))"
proof -
  have d: "reach s0 (Disable h p f)" using r f by (rule reach_Disable)
  have l: "reach s0 (SetLatency h f (Since io), p)" using r f by (rule reach_SetLatency)
  have fl: "f < length (SetLatency h f (Since io))" using f by (simp add: SetLatency_def)
  have "reach s0 (Disable (SetLatency h f (Since io)) p f)" using l fl by (rule reach_Disable)
  moreover have "reach s0 (Enable (SetLatency h f (Since io)) p f)" using l fl by (rule reach_Enable)
  ultimately show ?thesis using d
    by (simp add: checkWebSite_def Let_def split: option.splits)
qed

lemma reach_checkTurn:
  assumes r: "reach s0 (h, p)" and f: "f < length h"
    and t: "checkTurn h p f wait io = (h', p', w)"
  shows "reach s0 (h', p')"
proof -
  obtain ok h1 p1 where c: "checkWebSite h p f (CheckWebSite (config p)) (Seconds (CheckTimeout (config p))) io = (ok, h1, p1)"
    by (cases "checkWebSite h p f (CheckWebSite (config p)) (Seconds (CheckTimeout (config p))) io")
  have "reach s0 (h1, p1)"
    using reach_checkWebSite [OF r f, of "CheckWebSite (config p)" "Seconds (CheckTimeout (config p))" io]
    by (simp add: c)
  then show ?thesis using t r c by (auto simp: checkTurn_def Let_def split: if_splits)
qed

subsection \<open>The state that \<open>NewProxy\<close> returns\<close>

lemma makeForwarders_result:
  "makeForwarders lib c h s acc = Inr (h1, fs) \<Longrightarrow>
     length h1 = length h + length s \<and> fs = acc @ [length h..<length h + length s]"
proof (induction s arbitrary: h acc)
  case Nil
  then show ?case by simp
next
  case (Cons chain s)
  from Cons.prems obtain fwdr where
    r: "makeForwarders lib c (h @ [SetMaxFailures fwdr (of_int (MaxFailures c))]) s (acc @ [length h])
          = Inr (h1, fs)"
    by (auto split: option.splits)
  have "length h1 = length (h @ [SetMaxFailures fwdr (of_int (MaxFailures c))]) + length s
        \<and> fs = (acc @ [length h]) @ [length (h @ [SetMaxFailures fwdr (of_int (MaxFailures c))])
                  ..<length (h @ [SetMaxFailures fwdr (of_int (MaxFailures c))]) + length s]"
    using r by (rule Cons.IH)
  then show ?case by (simp add: upt_conv_Cons del: upt_Suc)
qed

lemma newProxy_groupInv:
  assumes np: "newProxy lib h name' fs c = Inr (h', p)"
    and srt: "sort_permutes lib"
    and fs: "distinct fs" "fs \<noteq> []" "list_all (\<lambda>f. f < length h) fs"
  shows "groupInv (fwdrs p) (length h) (Suc (length h)) (h', p)
         \<and> mset (fwdrs p) = mset fs \<and> rejectFwdr p = length h \<and> length h' = Suc (length h)
         \<and> index p = 0"
proof -
  from np obtain r where r: "ForwarderFromURL lib ''reject://'' [] 0 0 = Some r"
    by (auto simp: newProxy_def split: option.splits)
  define p0 where "p0 = \<lparr>name = name', config = c, fwdrs = Sort lib (Less (h @ [r])) fs, avail = [],
                    rejectFwdr = length h, index = 0, priority = 0, nextf = RR\<rparr>"
  have h': "h' = h @ [r]" using np r by (simp add: newProxy_def Let_def)
  have pf: "fwdrs p = fwdrs (init h' p0)" "rejectFwdr p = rejectFwdr (init h' p0)"
    "avail p = avail (init h' p0)" "priority p = priority (init h' p0)" "index p = index (init h' p0)"
    using np r by (auto simp: newProxy_def Let_def p0_def h')
  have m: "mset (fwdrs p0) = mset fs" using srt by (simp add: p0_def sort_permutes_def)
  have d: "distinct (fwdrs p0)" using m fs(1) by (metis mset_eq_imp_distinct_iff)
  have st: "set (fwdrs p0) = set fs" using m by (rule mset_eq_setD)
  have ne: "fwdrs p0 \<noteq> []" using m fs(2) by auto
  have i: "groupInv (fwdrs p0) (length h) (Suc (length h)) (h', init h' p0)"
  proof (rule groupInv_init)
    show "rejectFwdr p0 = length h" by (simp add: p0_def)
    show "length h' = Suc (length h)" by (simp add: h')
    show "length h \<notin> set (fwdrs p0)" using fs(3) st by (auto simp: list_all_iff)
    show "list_all (\<lambda>f. f < Suc (length h)) (fwdrs p0)"
      using fs(3) st by (auto simp: list_all_iff)
  qed (use d ne in simp_all)
  have "groupInv (fwdrs p) (length h) (Suc (length h)) (h', p)"
    using i by (simp add: groupInv_iff pf init_fields)
  then show ?thesis using m pf by (simp add: init_fields h' p0_def)
qed

lemma NewProxy_groupInv:
  assumes np: "NewProxy lib h name' s c = Inr (h', p)" and srt: "sort_permutes lib"
  shows "groupInv (fwdrs p) (rejectFwdr p) (length h') (h', p)
         \<and> length (fwdrs p) = (if s = [] then 1 else length s) \<and> index p = 0"
proof -
  from np obtain h1 fs1 where mf: "makeForwarders lib c h s [] = Inr (h1, fs1)"
    by (auto simp: NewProxy_def split: sum.splits)
  have r: "length h1 = length h + length s" "fs1 = [length h..<length h + length s]"
    using makeForwarders_result [OF mf] by auto
  show ?thesis
  proof (cases "s = []")
    case True
    then have fs1: "fs1 = []" using r by simp
    let ?h = "h1 @ [DirectForwarder lib (IntFace c) (Seconds (DialTimeout c)) (Seconds (RelayTimeout c))]"
    have np': "newProxy lib ?h name' [length h1] (c\<lparr>Strategy := ''rr''\<rparr>) = Inr (h', p)"
      using np mf fs1 by (simp add: NewProxy_def)
    have a: "groupInv (fwdrs p) (length ?h) (Suc (length ?h)) (h', p)
         \<and> mset (fwdrs p) = mset [length h1] \<and> rejectFwdr p = length ?h \<and> length h' = Suc (length ?h)
         \<and> index p = 0"
      using np' srt by (rule newProxy_groupInv) simp_all
    then have e: "rejectFwdr p = length ?h" "length h' = Suc (length ?h)" by simp_all
    have g: "groupInv (fwdrs p) (rejectFwdr p) (length h') (h', p)"
      using a by (simp only: e)
    have "length (fwdrs p) = length [length h1]" using a by (metis mset_eq_length)
    then show ?thesis using True g a by simp
  next
    case False
    then have ne: "fs1 \<noteq> []" using r by simp
    have np': "newProxy lib h1 name' fs1 c = Inr (h', p)"
      using np mf ne by (simp add: NewProxy_def)
    have a: "groupInv (fwdrs p) (length h1) (Suc (length h1)) (h', p)
         \<and> mset (fwdrs p) = mset fs1 \<and> rejectFwdr p = length h1 \<and> length h' = Suc (length h1)
         \<and> index p = 0"
      using np' srt by (rule newProxy_groupInv) (use r ne in \<open>auto simp: list_all_iff\<close>)
    then have e: "rejectFwdr p = length h1" "length h' = Suc (length h1)" by simp_all
    have g: "groupInv (fwdrs p) (rejectFwdr p) (length h') (h', p)"
      using a by (simp only: e)
    have "length (fwdrs p) = length fs1" using a by (metis mset_eq_length)
    then show ?thesis using False g a r by simp
  qed
qed

section \<open>Selecting a forwarder\<close>

subsection \<open>The library instance, the time windows, the selectors\<close>

lemma mset_insertLeft: "mset (insertLeft lt x ys) = add_mset x (mset ys)"
  by (induction ys) auto

lemma mset_foldl_insertLeft:
  "mset (foldl (\<lambda>acc x. insertLeft lt x acc) acc xs) = mset acc + mset xs"
  by (induction xs arbitrary: acc) (auto simp: mset_insertLeft)

lemma sort_permutes_testlib: "sort_permutes testlib"
  by (simp add: sort_permutes_def testlib_def insertionSort_def mset_foldl_insertLeft)

lemma anyContains_iff: "anyContains ws now \<longleftrightarrow> (\<exists>w \<in> set ws. Contains w now)"
  by (induction ws) auto

lemma timeAllowed_iff:
  "timeAllowed p now \<longleftrightarrow>
     \<not> ((ForwardTime (config p) \<noteq> [] \<and> \<not> (\<exists>w \<in> set (ForwardTime (config p)). Contains w now))
        \<or> (\<exists>w \<in> set (RejectTime (config p)). Contains w now))"
  by (auto simp: timeAllowed_def Let_def anyContains_iff)

lemma lowestLatency_mem: "lowestLatency h fs f l \<in> insert f (set fs)"
  by (induction fs arbitrary: f l) (auto split: if_splits)

lemma callNext_mem:
  assumes "callNext h p dstAddr = Inr (d, p')"
  shows "d \<in> set (avail p)"
proof (cases "nextf p")
  case RR
  then show ?thesis using assms
    by (auto simp: callNext_def scheduleRR_def Let_def split: if_splits)
next
  case HA
  then show ?thesis using assms
    by (auto simp: callNext_def scheduleHA_def split: if_splits)
next
  case LHA
  have "lowestLatency h (avail p) (avail p ! 0) (Latency (h ! (avail p ! 0))) \<in> insert (avail p ! 0) (set (avail p))"
    by (rule lowestLatency_mem)
  then show ?thesis using assms LHA
    by (auto simp: callNext_def scheduleLHA_def split: if_splits)
next
  case DH
  then show ?thesis using assms
    by (auto simp: callNext_def scheduleDH_def Let_def split: if_splits)
qed

lemma NextDialer_allowed_mem:
  assumes "NextDialer h p now dstAddr = Inr (d, p')" "timeAllowed p now"
  shows "d \<in> set (fwdrs p) \<union> set (avail p)"
proof (cases "length (avail p) = 0")
  case True
  then show ?thesis using assms
    by (auto simp: NextDialer_def Let_def split: if_splits)
next
  case False
  then have "callNext h p dstAddr = Inr (d, p')" using assms by (simp add: NextDialer_def)
  then show ?thesis using callNext_mem by blast
qed

lemma unat_mod_length:
  assumes "0 < n" "n < 2 ^ 32"
  shows "(of_nat n :: 32 word) \<noteq> 0" and "unat (i mod (of_nat n :: 32 word)) = unat i mod n"
    and "unat (i mod (of_nat n :: 32 word)) < n"
proof -
  show z: "(of_nat n :: 32 word) \<noteq> 0" using assms by (intro of_nat_neq_0) simp_all
  have u: "unat (of_nat n :: 32 word) = n" using assms by (simp add: unat_of_nat)
  show e: "unat (i mod (of_nat n :: 32 word)) = unat i mod n" by (simp add: unat_mod u)
  show "unat (i mod (of_nat n :: 32 word)) < n" using assms(1) by (simp add: e)
qed

lemma groupInv_avail_length:
  assumes "groupInv fs rf n (h, p)"
  shows "length (avail p) \<le> length (fwdrs p)"
proof -
  have "card (set (avail p)) \<le> card (set (fwdrs p))"
    using assms by (intro card_mono) (auto simp: groupInv_iff)
  then show ?thesis using assms by (simp add: groupInv_iff distinct_card)
qed

lemma reach_NewProxy:
  assumes "NewProxy lib h0 name' s c = Inr s0" "sort_permutes lib" "reach s0 (h, p)"
  shows "groupInv (fwdrs p) (rejectFwdr p) (length h) (h, p)"
    and "length (fwdrs p) = (if s = [] then 1 else length s)"
proof -
  obtain h1 p1 where s0: "s0 = (h1, p1)" by (cases s0)
  have i0: "groupInv (fwdrs p1) (rejectFwdr p1) (length h1) (h1, p1)"
    and l0: "length (fwdrs p1) = (if s = [] then 1 else length s)"
    using NewProxy_groupInv [OF assms(1) [unfolded s0] assms(2)] by simp_all
  have i: "groupInv (fwdrs p1) (rejectFwdr p1) (length h1) (h, p)"
    using assms(3) i0 unfolding s0 by (rule reach_groupInv)
  then have e: "fwdrs p = fwdrs p1" "rejectFwdr p = rejectFwdr p1" "length h = length h1"
    by (simp_all add: groupInv_iff)
  show "groupInv (fwdrs p) (rejectFwdr p) (length h) (h, p)" using i by (simp only: e)
  show "length (fwdrs p) = (if s = [] then 1 else length s)" using l0 by (simp only: e)
qed


lemma selectors_total:
  assumes ne: "avail p \<noteq> []" and lt: "length (avail p) < 2 ^ 32"
  shows "scheduleRR h p dstAddr
           = Inr (avail p ! (unat (index p + 1) mod length (avail p)), p\<lparr>index := index p + 1\<rparr>)"
    and "scheduleHA h p dstAddr = Inr (avail p ! 0, p)"
    and "\<exists>d. scheduleLHA h p dstAddr = Inr (d, p) \<and> d \<in> set (avail p)"
    and "scheduleDH h p dstAddr = Inr (avail p ! (unat (Sum32 dstAddr) mod length (avail p)), p)"
proof -
  have pos: "0 < length (avail p)" using ne by simp
  note w = unat_mod_length [OF pos lt]
  show "scheduleRR h p dstAddr
           = Inr (avail p ! (unat (index p + 1) mod length (avail p)), p\<lparr>index := index p + 1\<rparr>)"
    using w(1) w(3) [of "index p + 1"] by (simp add: scheduleRR_def Let_def w(2))
  show "scheduleHA h p dstAddr = Inr (avail p ! 0, p)" using pos by (simp add: scheduleHA_def)
  have "lowestLatency h (avail p) (avail p ! 0) (Latency (h ! (avail p ! 0))) \<in> insert (avail p ! 0) (set (avail p))"
    by (rule lowestLatency_mem)
  then show "\<exists>d. scheduleLHA h p dstAddr = Inr (d, p) \<and> d \<in> set (avail p)"
    using pos by (auto simp: scheduleLHA_def)
  show "scheduleDH h p dstAddr = Inr (avail p ! (unat (Sum32 dstAddr) mod length (avail p)), p)"
    using w(1) w(3) [of "Sum32 dstAddr"] by (simp add: scheduleDH_def Let_def w(2))
qed

lemma fallback_result:
  assumes "timeAllowed p now" "avail p = []" "fwdrs p \<noteq> []" "length (fwdrs p) < 2 ^ 32"
  shows "NextDialer h p now dstAddr
           = Inr (fwdrs p ! (unat (index p + 1) mod length (fwdrs p)), p\<lparr>index := index p + 1\<rparr>)"
    and "unat (index p + 1) mod length (fwdrs p) < length (fwdrs p)"
proof -
  have pos: "0 < length (fwdrs p)" using assms(3) by simp
  note w = unat_mod_length [OF pos assms(4)]
  show "NextDialer h p now dstAddr
           = Inr (fwdrs p ! (unat (index p + 1) mod length (fwdrs p)), p\<lparr>index := index p + 1\<rparr>)"
    using assms(1,2) w(1) w(3) [of "index p + 1"] by (simp add: NextDialer_def Let_def w(2))
  show "unat (index p + 1) mod length (fwdrs p) < length (fwdrs p)" using pos by simp
qed

subsection \<open>The claims about a group\<close>

text \<open>
  Claim C4.  In every state that a group reaches from its construction by \<open>NewProxy\<close>,
  through \<open>init\<close>, through changes of the status of forwarders (whose callback
  \<open>onStatusChanged\<close> runs only when the enabled flag has changed) and through
  selections, every forwarder of the available list is enabled and has a priority of at
  least the active priority of the group.
\<close>

theorem available_invariant:
  assumes "NewProxy lib h0 name' s c = Inr s0" and "sort_permutes lib" and "reach s0 (h, p)"
  shows "\<forall>f \<in> set (avail p). Enabled (h ! f) \<and> priority p \<le> Priority (h ! f)"
  using reach_NewProxy(1) [OF assms] by (simp add: groupInv_iff list_all_iff)

text \<open>
  Claim C3.  In every state of a group and at every instant, \<open>NextDialer\<close> returns the
  reject forwarder if and only if the list of forward windows is not empty and none
  contains the instant, or some reject window contains it.
\<close>

theorem NextDialer_reject_iff:
  assumes "NewProxy lib h0 name' s c = Inr s0" and "sort_permutes lib" and "reach s0 (h, p)"
  shows "(\<exists>p'. NextDialer h p now dstAddr = Inr (rejectFwdr p, p'))
         \<longleftrightarrow> ((ForwardTime (config p) \<noteq> [] \<and> \<not> (\<exists>w \<in> set (ForwardTime (config p)). Contains w now))
              \<or> (\<exists>w \<in> set (RejectTime (config p)). Contains w now))"
proof (cases "timeAllowed p now")
  case False
  then have "NextDialer h p now dstAddr = Inr (rejectFwdr p, p)" by (simp add: NextDialer_def)
  then show ?thesis using False by (auto simp: timeAllowed_iff)
next
  case True
  have inv: "groupInv (fwdrs p) (rejectFwdr p) (length h) (h, p)"
    using assms by (rule reach_NewProxy(1))
  have "\<not> (\<exists>p'. NextDialer h p now dstAddr = Inr (rejectFwdr p, p'))"
  proof
    assume "\<exists>p'. NextDialer h p now dstAddr = Inr (rejectFwdr p, p')"
    then obtain p' where "NextDialer h p now dstAddr = Inr (rejectFwdr p, p')" ..
    then have "rejectFwdr p \<in> set (fwdrs p) \<union> set (avail p)"
      using True by (rule NextDialer_allowed_mem)
    then show False using inv by (auto simp: groupInv_iff)
  qed
  then show ?thesis using True unfolding timeAllowed_iff by blast
qed

text \<open>
  Claim C5.  When the available list is empty and the time windows allow the request,
  \<open>NextDialer\<close> increments the 32-bit counter and returns the forwarder at the position
  counter modulo length in the list of all forwarders of the group (at most \<open>2^32 - 1\<close>
  of them), whether it is enabled or not.  In particular a group all of whose
  forwarders are disabled has an empty available list and still gets a forwarder.
\<close>

theorem emergency_round_robin:
  "(timeAllowed p now \<and> avail p = [] \<and> fwdrs p \<noteq> [] \<and> length (fwdrs p) < 2 ^ 32 \<longrightarrow>
      NextDialer h p now dstAddr
        = Inr (fwdrs p ! (unat (index p + 1) mod length (fwdrs p)), p\<lparr>index := index p + 1\<rparr>)
      \<and> unat (index p + 1) mod length (fwdrs p) < length (fwdrs p))
   \<and> (NewProxy lib h0 name' s c = Inr s0 \<and> sort_permutes lib \<and> reach s0 (h, p)
        \<and> (\<forall>f \<in> set (fwdrs p). \<not> Enabled (h ! f)) \<longrightarrow> avail p = [] \<and> fwdrs p \<noteq> [])"
proof -
  have a: "avail p = [] \<and> fwdrs p \<noteq> []"
    if "NewProxy lib h0 name' s c = Inr s0" "sort_permutes lib" "reach s0 (h, p)"
      "\<forall>f \<in> set (fwdrs p). \<not> Enabled (h ! f)"
  proof -
    have inv: "groupInv (fwdrs p) (rejectFwdr p) (length h) (h, p)"
      using that(1-3) by (rule reach_NewProxy(1))
    have "avail p = []"
    proof (cases "avail p")
      case Nil
      then show ?thesis .
    next
      case (Cons a as)
      then have "a \<in> set (fwdrs p)" "Enabled (h ! a)"
        using inv by (auto simp: groupInv_iff)
      then show ?thesis using that(4) by blast
    qed
    then show ?thesis using inv by (simp add: groupInv_iff)
  qed
  show ?thesis using fallback_result(1) [of p now h dstAddr] fallback_result(2) [of p now] a by blast
qed

text \<open>
  Claim C10.  After \<open>NewProxy\<close> has returned (for fewer than \<open>2^32\<close> URLs), in every state
  that the group reaches, its list of forwarders has one entry per URL, and one entry,
  the direct forwarder, when there is no URL; \<open>NextDialer\<close> returns a forwarder, never a
  panic: the divisor of the fallback is positive and its index is in range, and so are
  those of the round-robin selector on a non-empty available list.
\<close>

theorem selection_never_panics:
  assumes "NewProxy lib h0 name' s c = Inr s0" and "sort_permutes lib" and "reach s0 (h, p)"
    and len: "length s < 2 ^ 32"
  shows "length (fwdrs p) = (if s = [] then 1 else length s)
         \<and> (\<exists>d p'. NextDialer h p now dstAddr = Inr (d, p') \<and> (d = rejectFwdr p \<or> d \<in> set (fwdrs p)))
         \<and> (avail p = [] \<and> timeAllowed p now \<longrightarrow>
              NextDialer h p now dstAddr
                = Inr (fwdrs p ! (unat (index p + 1) mod length (fwdrs p)), p\<lparr>index := index p + 1\<rparr>)
              \<and> unat (index p + 1) mod length (fwdrs p) < length (fwdrs p))
         \<and> (avail p \<noteq> [] \<longrightarrow>
              scheduleRR h p dstAddr
                = Inr (avail p ! (unat (index p + 1) mod length (avail p)), p\<lparr>index := index p + 1\<rparr>)
              \<and> unat (index p + 1) mod length (avail p) < length (avail p))"
proof -
  have inv: "groupInv (fwdrs p) (rejectFwdr p) (length h) (h, p)"
    and fl: "length (fwdrs p) = (if s = [] then 1 else length s)"
    using assms(1-3) by (rule reach_NewProxy)+
  have ne: "fwdrs p \<noteq> []" using inv by (simp add: groupInv_iff)
  have flt: "length (fwdrs p) < 2 ^ 32" using fl len by (simp split: if_splits)
  have alt: "length (avail p) < 2 ^ 32" using groupInv_avail_length [OF inv] flt by simp
  have sub: "set (avail p) \<subseteq> set (fwdrs p)" using inv by (simp add: groupInv_iff)
  have nd: "\<exists>d p'. NextDialer h p now dstAddr = Inr (d, p') \<and> (d = rejectFwdr p \<or> d \<in> set (fwdrs p))"
  proof (cases "timeAllowed p now")
    case False
    then show ?thesis by (simp add: NextDialer_def)
  next
    case True
    show ?thesis
    proof (cases "avail p = []")
      case e: True
      show ?thesis using fallback_result(1) [OF True e ne flt, of h dstAddr] ne by simp
    next
      case n: False
      note sel = selectors_total [OF n alt, of h dstAddr]
      have "\<exists>d p'. callNext h p dstAddr = Inr (d, p') \<and> d \<in> set (avail p)"
        using sel n by (cases "nextf p") (auto simp: callNext_def)
      then show ?thesis using True n sub by (auto simp: NextDialer_def)
    qed
  qed
  have rr: "avail p \<noteq> [] \<longrightarrow>
              scheduleRR h p dstAddr
                = Inr (avail p ! (unat (index p + 1) mod length (avail p)), p\<lparr>index := index p + 1\<rparr>)
              \<and> unat (index p + 1) mod length (avail p) < length (avail p)"
    using selectors_total(1) [OF _ alt, of h dstAddr] by simp
  show ?thesis
    using fl nd rr fallback_result(1) [OF _ _ ne flt, of now h dstAddr]
      fallback_result(2) [OF _ _ ne flt, of now] by blast
qed


lemma demo_NewProxy:
  assumes "Strategy c = ''rr''" "CHR '':'' \<notin> set (CheckWebSite c)"
  shows "NewProxy testlib [] ''g'' [''a'', ''b'', ''c''] c = Inr (demoHeap c, demoGroup c)"
  using assms
  by (simp add: NewProxy_def newProxy_def testlib_def insertionSort_def Less_def init_def
      SetPriority_def SetMaxFailures_def plainForwarder_def demoHeap_def demoGroup_def Let_def)

lemma demo_emptyConfig:
  "NewProxy testlib [] ''g'' [''a'', ''b'', ''c''] emptyConfig = Inr (demoHeap emptyConfig, demoGroup emptyConfig)"
  by (rule demo_NewProxy) (simp_all add: emptyConfig_def)

lemma demo_windowConfig:
  "NewProxy testlib [] ''g'' [''a'', ''b'', ''c''] windowConfig = Inr (demoHeap windowConfig, demoGroup windowConfig)"
  by (rule demo_NewProxy) (simp_all add: windowConfig_def emptyConfig_def)

lemma demo_Disable1:
  "Disable (demoHeap c) (demoGroup c) 1
     = ((demoHeap c)[1 := (demoHeap c ! 1)\<lparr>Enabled := False\<rparr>], (demoGroup c)\<lparr>avail := [0, 2]\<rparr>)"
  by (simp add: Disable_def fire_def onStatusChanged_def swapRemove_def demoHeap_def demoGroup_def
      SetMaxFailures_def plainForwarder_def Let_def)

text \<open>The group of three after the second forwarder has been disabled: the available list is \<open>[0, 2]\<close>.\<close>

theorem available_invariant_witness:
  "NewProxy testlib [] ''g'' [''a'', ''b'', ''c''] emptyConfig
     = Inr (demoHeap emptyConfig, demoGroup emptyConfig)
   \<and> avail (snd (Disable (demoHeap emptyConfig) (demoGroup emptyConfig) 1)) = [0, 2]
   \<and> Enabled (fst (Disable (demoHeap emptyConfig) (demoGroup emptyConfig) 1) ! 0)
   \<and> Enabled (fst (Disable (demoHeap emptyConfig) (demoGroup emptyConfig) 1) ! 2)
   \<and> priority (snd (Disable (demoHeap emptyConfig) (demoGroup emptyConfig) 1))
        \<le> Priority (fst (Disable (demoHeap emptyConfig) (demoGroup emptyConfig) 1) ! 0)
   \<and> priority (snd (Disable (demoHeap emptyConfig) (demoGroup emptyConfig) 1))
        \<le> Priority (fst (Disable (demoHeap emptyConfig) (demoGroup emptyConfig) 1) ! 2)"
proof -
  let ?s0 = "(demoHeap emptyConfig, demoGroup emptyConfig)"
  obtain h p where d: "Disable (demoHeap emptyConfig) (demoGroup emptyConfig) 1 = (h, p)"
    by (cases "Disable (demoHeap emptyConfig) (demoGroup emptyConfig) 1")
  have av: "avail p = [0, 2]" using d [unfolded demo_Disable1] by auto
  have "reach ?s0 (Disable (demoHeap emptyConfig) (demoGroup emptyConfig) 1)"
    by (rule reach_Disable [OF reach_start]) (simp add: demoHeap_def)
  then have r: "reach ?s0 (h, p)" by (simp only: d)
  have "\<forall>f \<in> set (avail p). Enabled (h ! f) \<and> priority p \<le> Priority (h ! f)"
    using demo_emptyConfig sort_permutes_testlib r by (rule available_invariant)
  then show ?thesis using av demo_emptyConfig unfolding d by simp
qed


text \<open>Monday 12:30, forward window Monday 09:00 to 17:00, reject window Monday 12:00 to 13:00.\<close>

theorem NextDialer_reject_iff_witness:
  "NewProxy testlib [] ''g'' [''a'', ''b'', ''c''] windowConfig
     = Inr (demoHeap windowConfig, demoGroup windowConfig)
   \<and> (\<exists>p'. NextDialer (demoHeap windowConfig) (demoGroup windowConfig)
               \<lparr>Weekday = 1, Hour = 12, Minute = 30\<rparr> ''x''
             = Inr (rejectFwdr (demoGroup windowConfig), p'))
   \<and> Contains \<lparr>FromDay = 1, ToDay = 1, FromHour = 12, FromMin = 0, ToHour = 13, ToMin = 0\<rparr>
        \<lparr>Weekday = 1, Hour = 12, Minute = 30\<rparr>
   \<and> RejectTime (config (demoGroup windowConfig))
       = [\<lparr>FromDay = 1, ToDay = 1, FromHour = 12, FromMin = 0, ToHour = 13, ToMin = 0\<rparr>]"
proof -
  have c: "Contains \<lparr>FromDay = 1, ToDay = 1, FromHour = 12, FromMin = 0, ToHour = 13, ToMin = 0\<rparr>
        \<lparr>Weekday = 1, Hour = 12, Minute = 30\<rparr>"
    by (simp add: Contains_def)
  have r: "RejectTime (config (demoGroup windowConfig))
       = [\<lparr>FromDay = 1, ToDay = 1, FromHour = 12, FromMin = 0, ToHour = 13, ToMin = 0\<rparr>]"
    by (simp add: demoGroup_def windowConfig_def)
  show ?thesis
    using NextDialer_reject_iff [OF demo_windowConfig sort_permutes_testlib reach_start,
        of "\<lparr>Weekday = 1, Hour = 12, Minute = 30\<rparr>" "''x''"]
      demo_windowConfig c r
    by simp
qed

lemma allDown_eq:
  "allDown c =
     ([(demoHeap c ! 0)\<lparr>Enabled := False\<rparr>, (demoHeap c ! 1)\<lparr>Enabled := False\<rparr>,
       (demoHeap c ! 2)\<lparr>Enabled := False\<rparr>, demoHeap c ! 3],
      (demoGroup c)\<lparr>avail := []\<rparr>)"
  by (simp add: allDown_def Disable_def fire_def onStatusChanged_def swapRemove_def init_def
      SetPriority_def demoHeap_def demoGroup_def SetMaxFailures_def plainForwarder_def Let_def)

lemma reach_allDown: "reach (demoHeap c, demoGroup c) (allDown c)"
proof -
  obtain h1 p1 where d1: "Disable (demoHeap c) (demoGroup c) 0 = (h1, p1)"
    by (cases "Disable (demoHeap c) (demoGroup c) 0")
  obtain h2 p2 where d2: "Disable h1 p1 1 = (h2, p2)" by (cases "Disable h1 p1 1")
  have l1: "length h1 = 4" using d1 by (auto simp: Disable_def Let_def demoHeap_def split: if_splits)
  have l2: "length h2 = 4" using d2 l1 by (auto simp: Disable_def Let_def split: if_splits)
  have "reach (demoHeap c, demoGroup c) (Disable (demoHeap c) (demoGroup c) 0)"
    by (rule reach_Disable [OF reach_start]) (simp add: demoHeap_def)
  then have "reach (demoHeap c, demoGroup c) (h1, p1)" by (simp only: d1)
  then have "reach (demoHeap c, demoGroup c) (Disable h1 p1 1)"
    by (rule reach_Disable) (simp add: l1)
  then have "reach (demoHeap c, demoGroup c) (h2, p2)" by (simp only: d2)
  then have "reach (demoHeap c, demoGroup c) (Disable h2 p2 2)"
    by (rule reach_Disable) (simp add: l2)
  then show ?thesis by (simp only: allDown_def d1 d2 prod.case)
qed

text \<open>The group of three with all its forwarders disabled: the next selection returns the second one.\<close>

theorem emergency_round_robin_witness:
  "avail (snd (allDown emptyConfig)) = []
   \<and> fwdrs (snd (allDown emptyConfig)) = [0, 1, 2]
   \<and> \<not> Enabled (fst (allDown emptyConfig) ! 0) \<and> \<not> Enabled (fst (allDown emptyConfig) ! 1)
   \<and> \<not> Enabled (fst (allDown emptyConfig) ! 2)
   \<and> NextDialer (fst (allDown emptyConfig)) (snd (allDown emptyConfig))
        \<lparr>Weekday = 1, Hour = 12, Minute = 30\<rparr> ''x''
       = Inr (1, (snd (allDown emptyConfig))\<lparr>index := 1\<rparr>)"
proof -
  obtain h p where s: "allDown emptyConfig = (h, p)" by (cases "allDown emptyConfig")
  have f: "fwdrs p = [0, 1, 2]" "index p = 0" "ForwardTime (config p) = []" "RejectTime (config p) = []"
    and e: "\<not> Enabled (h ! 0)" "\<not> Enabled (h ! 1)" "\<not> Enabled (h ! 2)"
    using s [unfolded allDown_eq] by (auto simp: demoGroup_def emptyConfig_def)
  have r: "reach (demoHeap emptyConfig, demoGroup emptyConfig) (h, p)"
    using reach_allDown [of emptyConfig] by (simp only: s)
  have t: "timeAllowed p \<lparr>Weekday = 1, Hour = 12, Minute = 30\<rparr>"
    using f by (simp add: timeAllowed_def)
  note th = emergency_round_robin [of p "\<lparr>Weekday = 1, Hour = 12, Minute = 30\<rparr>" h "''x''"
      testlib "[]" "''g''" "[''a'', ''b'', ''c'']" emptyConfig "(demoHeap emptyConfig, demoGroup emptyConfig)"]
  have a: "avail p = []"
    using th demo_emptyConfig sort_permutes_testlib r e f by simp
  have "NextDialer h p \<lparr>Weekday = 1, Hour = 12, Minute = 30\<rparr> ''x'' = Inr (1, p\<lparr>index := 1\<rparr>)"
    using th t a f by simp
  then show ?thesis using a f e unfolding s by simp
qed

lemma demo_direct:
  "NewProxy testlib [] ''g'' [] emptyConfig
     = Inr ([plainForwarder ''DIRECT'', plainForwarder ''reject://''],
            \<lparr>name = ''g'', config = emptyConfig\<lparr>CheckWebSite := ''www.apple.com:80''\<rparr>, fwdrs = [0],
             avail = [0], rejectFwdr = 1, index = 0, priority = 0, nextf = RR\<rparr>)"
  by (simp add: NewProxy_def newProxy_def testlib_def insertionSort_def Less_def init_def
      SetPriority_def plainForwarder_def emptyConfig_def Let_def)

text \<open>An empty list of URLs: the group gets the direct forwarder, which every selection returns.\<close>

theorem selection_never_panics_witness:
  "NewProxy testlib [] ''g'' [] emptyConfig
     = Inr ([plainForwarder ''DIRECT'', plainForwarder ''reject://''],
            \<lparr>name = ''g'', config = emptyConfig\<lparr>CheckWebSite := ''www.apple.com:80''\<rparr>, fwdrs = [0],
             avail = [0], rejectFwdr = 1, index = 0, priority = 0, nextf = RR\<rparr>)
   \<and> NextDialer [plainForwarder ''DIRECT'', plainForwarder ''reject://'']
        \<lparr>name = ''g'', config = emptyConfig\<lparr>CheckWebSite := ''www.apple.com:80''\<rparr>, fwdrs = [0],
         avail = [0], rejectFwdr = 1, index = 0, priority = 0, nextf = RR\<rparr>
        \<lparr>Weekday = 1, Hour = 12, Minute = 30\<rparr> ''x''
       = Inr (0, \<lparr>name = ''g'', config = emptyConfig\<lparr>CheckWebSite := ''www.apple.com:80''\<rparr>, fwdrs = [0],
                  avail = [0], rejectFwdr = 1, index = 1, priority = 0, nextf = RR\<rparr>)"
proof -
  let ?h = "[plainForwarder ''DIRECT'', plainForwarder ''reject://'']"
  let ?p = "\<lparr>name = ''g'', config = emptyConfig\<lparr>CheckWebSite := ''www.apple.com:80''\<rparr>, fwdrs = [0],
             avail = [0], rejectFwdr = 1, index = 0, priority = 0, nextf = RR\<rparr>"
  have "length (fwdrs ?p) = (if ([] :: string list) = [] then 1 else length ([] :: string list))
         \<and> (\<exists>d p'. NextDialer ?h ?p \<lparr>Weekday = 1, Hour = 12, Minute = 30\<rparr> ''x'' = Inr (d, p')
               \<and> (d = rejectFwdr ?p \<or> d \<in> set (fwdrs ?p)))
         \<and> (avail ?p = [] \<and> timeAllowed ?p \<lparr>Weekday = 1, Hour = 12, Minute = 30\<rparr> \<longrightarrow>
              NextDialer ?h ?p \<lparr>Weekday = 1, Hour = 12, Minute = 30\<rparr> ''x''
                = Inr (fwdrs ?p ! (unat (index ?p + 1) mod length (fwdrs ?p)), ?p\<lparr>index := index ?p + 1\<rparr>)
              \<and> unat (index ?p + 1) mod length (fwdrs ?p) < length (fwdrs ?p))
         \<and> (avail ?p \<noteq> [] \<longrightarrow>
              scheduleRR ?h ?p ''x''
                = Inr (avail ?p ! (unat (index ?p + 1) mod length (avail ?p)), ?p\<lparr>index := index ?p + 1\<rparr>)
              \<and> unat (index ?p + 1) mod length (avail ?p) < length (avail ?p))"
    by (rule selection_never_panics [OF demo_direct sort_permutes_testlib reach_start]) simp
  then have "scheduleRR ?h ?p ''x'' = Inr (0, ?p\<lparr>index := 1\<rparr>)" by simp
  then have "NextDialer ?h ?p \<lparr>Weekday = 1, Hour = 12, Minute = 30\<rparr> ''x'' = Inr (0, ?p\<lparr>index := 1\<rparr>)"
    by (simp add: NextDialer_def callNext_def timeAllowed_def emptyConfig_def)
  then show ?thesis using demo_direct by simp
qed

subsection \<open>Round robin\<close>

lemma newProxy_three:
  assumes np: "newProxy lib h name' [a, b, c] cfg = Inr (h', p)"
    and sorted: "Sort lib (Less h') [a, b, c] = [a, b, c]"
    and ptr: "a < length h" "b < length h" "c < length h"
    and en: "Enabled (h ! a)" "Enabled (h ! b)" "Enabled (h ! c)"
    and pri: "Priority (h ! a) = Priority (h ! b)" "Priority (h ! b) = Priority (h ! c)"
    and rr: "Strategy cfg = ''rr''"
  shows "avail p = [a, b, c]" "index p = 0" "nextf p = RR"
    "ForwardTime (config p) = ForwardTime cfg" "RejectTime (config p) = RejectTime cfg"
proof -
  from np obtain r where r: "ForwarderFromURL lib ''reject://'' [] 0 0 = Some r"
    by (auto simp: newProxy_def split: option.splits)
  have h': "h' = h @ [r]" using np r by (simp add: newProxy_def Let_def)
  have nth: "h' ! a = h ! a" "h' ! b = h ! b" "h' ! c = h ! c"
    using ptr by (simp_all add: h' nth_append)
  define p0 where "p0 = \<lparr>name = name', config = cfg, fwdrs = Sort lib (Less (h @ [r])) [a, b, c],
                    avail = [], rejectFwdr = length h, index = 0, priority = 0, nextf = RR\<rparr>"
  have pf: "avail p = avail (init h' p0)" "index p = index (init h' p0)" "nextf p = RR"
    "ForwardTime (config p) = ForwardTime (config (init h' p0))"
    "RejectTime (config p) = RejectTime (config (init h' p0))"
    using np r rr by (auto simp: newProxy_def Let_def p0_def h')
  have f0: "fwdrs p0 = [a, b, c]" using sorted by (simp add: p0_def h')
  have av: "avail (init h' p0) = [a, b, c]"
    using en pri nth f0 by (simp add: init_def SetPriority_def Let_def)
  show "avail p = [a, b, c]" "index p = 0" "nextf p = RR"
    "ForwardTime (config p) = ForwardTime cfg" "RejectTime (config p) = RejectTime cfg"
    using pf av by (simp_all add: init_fields) (simp_all add: p0_def)
qed

text \<open>
  Claim C6.  A group of strategy \<open>rr\<close> without time windows is built by \<open>newProxy\<close> from
  three enabled forwarders \<open>a\<close>, \<open>b\<close>, \<open>c\<close> of one priority, which the sort leaves in this
  order.  Its counter starts at 0, and five selections in a row return \<open>b\<close>, \<open>c\<close>, \<open>a\<close>,
  \<open>b\<close>, \<open>c\<close>: the counter is incremented before the modulo is taken.
\<close>

theorem rr_rotation:
  assumes np: "newProxy lib h name' [a, b, c] cfg = Inr (h', p)"
    and sorted: "Sort lib (Less h') [a, b, c] = [a, b, c]"
    and ptr: "a < length h" "b < length h" "c < length h"
    and en: "Enabled (h ! a)" "Enabled (h ! b)" "Enabled (h ! c)"
    and pri: "Priority (h ! a) = Priority (h ! b)" "Priority (h ! b) = Priority (h ! c)"
    and rr: "Strategy cfg = ''rr''" and nw: "ForwardTime cfg = []" "RejectTime cfg = []"
  shows "index p = 0
         \<and> NextDialer h' p now x = Inr (b, p\<lparr>index := 1\<rparr>)
         \<and> NextDialer h' (p\<lparr>index := 1\<rparr>) now x = Inr (c, p\<lparr>index := 2\<rparr>)
         \<and> NextDialer h' (p\<lparr>index := 2\<rparr>) now x = Inr (a, p\<lparr>index := 3\<rparr>)
         \<and> NextDialer h' (p\<lparr>index := 3\<rparr>) now x = Inr (b, p\<lparr>index := 4\<rparr>)
         \<and> NextDialer h' (p\<lparr>index := 4\<rparr>) now x = Inr (c, p\<lparr>index := 5\<rparr>)"
proof -
  note f = newProxy_three [OF np sorted ptr en pri rr]
  have t: "\<And>i. timeAllowed (p\<lparr>index := i\<rparr>) now" "timeAllowed p now"
    using f nw by (simp_all add: timeAllowed_def)
  have "\<And>j :: 32 word. unat (j mod 3) < 3"
    using unat_mod_length(3) [of 3] by simp
  then have lt3: "\<And>j :: 32 word. unat (j mod 3) < Suc (Suc (Suc 0))"
    by (simp only: numeral_3_eq_3)
  have step: "\<And>i. NextDialer h' (p\<lparr>index := i\<rparr>) now x
                = Inr ([a, b, c] ! unat ((i + 1) mod 3), p\<lparr>index := i + 1\<rparr>)"
    using t f lt3 by (simp add: NextDialer_def callNext_def scheduleRR_def Let_def)
  have s0: "NextDialer h' p now x = Inr ([a, b, c] ! unat ((0 + 1 :: 32 word) mod 3), p\<lparr>index := 0 + 1\<rparr>)"
    using step [of 0] f(2) by (metis Proxy.surjective Proxy.update_convs(6))
  show ?thesis using f(2) s0 step [of 1] step [of 2] step [of 3] step [of 4] by simp
qed


lemma demo_newProxy:
  "newProxy testlib (take 3 (demoHeap emptyConfig)) ''g'' [0, 1, 2] emptyConfig
     = Inr (demoHeap emptyConfig, demoGroup emptyConfig)"
  by (simp add: newProxy_def testlib_def insertionSort_def Less_def init_def
      SetPriority_def SetMaxFailures_def plainForwarder_def demoHeap_def demoGroup_def
      emptyConfig_def Let_def)

text \<open>The group of three: the selections return the forwarders 1, 2, 0, 1, 2.\<close>

theorem rr_rotation_witness:
  "newProxy testlib (take 3 (demoHeap emptyConfig)) ''g'' [0, 1, 2] emptyConfig
     = Inr (demoHeap emptyConfig, demoGroup emptyConfig)
   \<and> index (demoGroup emptyConfig) = 0
   \<and> NextDialer (demoHeap emptyConfig) (demoGroup emptyConfig) \<lparr>Weekday = 1, Hour = 12, Minute = 30\<rparr> ''x''
       = Inr (1, (demoGroup emptyConfig)\<lparr>index := 1\<rparr>)
   \<and> NextDialer (demoHeap emptyConfig) ((demoGroup emptyConfig)\<lparr>index := 1\<rparr>)
         \<lparr>Weekday = 1, Hour = 12, Minute = 30\<rparr> ''x''
       = Inr (2, (demoGroup emptyConfig)\<lparr>index := 2\<rparr>)
   \<and> NextDialer (demoHeap emptyConfig) ((demoGroup emptyConfig)\<lparr>index := 2\<rparr>)
         \<lparr>Weekday = 1, Hour = 12, Minute = 30\<rparr> ''x''
       = Inr (0, (demoGroup emptyConfig)\<lparr>index := 3\<rparr>)
   \<and> NextDialer (demoHeap emptyConfig) ((demoGroup emptyConfig)\<lparr>index := 3\<rparr>)
         \<lparr>Weekday = 1, Hour = 12, Minute = 30\<rparr> ''x''
       = Inr (1, (demoGroup emptyConfig)\<lparr>index := 4\<rparr>)
   \<and> NextDialer (demoHeap emptyConfig) ((demoGroup emptyConfig)\<lparr>index := 4\<rparr>)
         \<lparr>Weekday = 1, Hour = 12, Minute = 30\<rparr> ''x''
       = Inr (2, (demoGroup emptyConfig)\<lparr>index := 5\<rparr>)"
proof -
  have s: "Sort testlib (Less (demoHeap emptyConfig)) [0, 1, 2] = [0, 1, 2]"
    by (simp add: testlib_def insertionSort_def Less_def demoHeap_def SetMaxFailures_def
        plainForwarder_def)
  have e: "Enabled (take 3 (demoHeap emptyConfig) ! 0)" "Enabled (take 3 (demoHeap emptyConfig) ! 1)"
    "Enabled (take 3 (demoHeap emptyConfig) ! 2)"
    and q: "Priority (take 3 (demoHeap emptyConfig) ! 0) = Priority (take 3 (demoHeap emptyConfig) ! 1)"
    "Priority (take 3 (demoHeap emptyConfig) ! 1) = Priority (take 3 (demoHeap emptyConfig) ! 2)"
    and l: "0 < length (take 3 (demoHeap emptyConfig))" "1 < length (take 3 (demoHeap emptyConfig))"
    "2 < length (take 3 (demoHeap emptyConfig))"
    by (simp_all add: demoHeap_def SetMaxFailures_def plainForwarder_def)
  have c: "Strategy emptyConfig = ''rr''" "ForwardTime emptyConfig = []" "RejectTime emptyConfig = []"
    by (simp_all add: emptyConfig_def)
  show ?thesis
    using rr_rotation [OF demo_newProxy s l e q c, of "\<lparr>Weekday = 1, Hour = 12, Minute = 30\<rparr>" "''x''"]
      demo_newProxy
    by simp
qed

section \<open>The health check\<close>

lemma Disable_flag:
  assumes "Disable h p f = (h', p')" "f < length h"
  shows "\<not> Enabled (h' ! f)" and "length h' = length h"
  using assms by (auto simp: Disable_def Let_def split: if_splits)

lemma Enable_flag:
  assumes "Enable h p f = (h', p')" "f < length h"
  shows "Enabled (h' ! f)" and "length h' = length h"
  using assms by (auto simp: Enable_def Let_def split: if_splits)

text \<open>
  Claim C2, what the code does.  When the dial, the write and the read succeed and the
  four bytes are \<open>HTTP\<close>, \<open>checkWebSite\<close> returns true and enables the forwarder exactly
  when the elapsed time is at most the timeout, and returns false and disables it
  otherwise, whatever the timeout is: its last test compares the two without asking
  whether the timeout is positive.  With a timeout of zero every probe that has taken
  some time disables the forwarder.
\<close>

theorem checkWebSite_answered:
  assumes "DialOK io" "WriteOK io" "ReadFull io = Some ''HTTP''" and "f < length h"
  shows "\<exists>h' p'. checkWebSite h p f website timeout io = (Since io \<le> timeout, h', p')
                 \<and> Enabled (h' ! f) = (Since io \<le> timeout)"
proof (cases "Since io \<le> timeout")
  case True
  obtain h' p' where e: "Enable (SetLatency h f (Since io)) p f = (h', p')"
    by (cases "Enable (SetLatency h f (Since io)) p f")
  have l: "f < length (SetLatency h f (Since io))" using assms(4) by (simp add: SetLatency_def)
  have "Enabled (h' ! f)" using e l by (rule Enable_flag(1))
  moreover have "checkWebSite h p f website timeout io = (True, h', p')"
    using assms True e by (simp add: checkWebSite_def Let_def)
  ultimately show ?thesis using True by simp
next
  case False
  obtain h' p' where d: "Disable (SetLatency h f (Since io)) p f = (h', p')"
    by (cases "Disable (SetLatency h f (Since io)) p f")
  have l: "f < length (SetLatency h f (Since io))" using assms(4) by (simp add: SetLatency_def)
  have "\<not> Enabled (h' ! f)" using d l by (rule Disable_flag(1))
  moreover have "checkWebSite h p f website timeout io = (False, h', p')"
    using assms False d by (simp add: checkWebSite_def Let_def)
  ultimately show ?thesis using False by simp
qed

text \<open>A check timeout of 0 seconds and an answer after 5 ms: the probe fails and the forwarder is disabled.\<close>

theorem checkWebSite_answered_witness:
  "\<exists>h' p'. checkWebSite (demoHeap emptyConfig) (demoGroup emptyConfig) 0 ''www.apple.com:80'' (Seconds 0)
             (answered 5000000) = (False, h', p') \<and> \<not> Enabled (h' ! 0)"
proof -
  have "Seconds 0 = 0" by (simp add: Seconds_def wrap64_def)
  then show ?thesis
    using checkWebSite_answered [of "answered 5000000" 0 "demoHeap emptyConfig"
        "demoGroup emptyConfig" "''www.apple.com:80''" "Seconds 0"]
    by (simp add: answered_def demoHeap_def)
qed

subsection \<open>The counter of the probe loop\<close>

text \<open>The update of the counter after a failed probe, as a function of its value.\<close>

lemma wait_backoff:
  fixes wait :: "8 word"
  assumes "unat wait \<le> 127"
  shows "unat (let w = (if wait = 0 then 1 else wait); w = w * 2 in if w > 16 then 16 else w)
           = min 16 (2 * max 1 (unat wait))"
proof (cases "wait = 0")
  case True
  then show ?thesis by simp
next
  case False
  then have pos: "0 < unat wait" by (simp add: unat_gt_0)
  have m: "unat (wait * 2) = 2 * unat wait"
    using assms by (simp add: unat_word_ariths)
  have "(wait * 2 > 16) = (2 * unat wait > 16)"
    by (simp add: word_less_nat_alt m)
  then show ?thesis using False pos m by (auto simp: Let_def)
qed

lemma checkTurn_probe:
  assumes c1: "\<not> (wait > 0 \<and> Priority (h ! f) < priority p)"
    and c2: "\<not> (Enabled (h ! f) \<and> CheckDisabledOnly (config p))"
    and c3: "checkWebSite h p f (CheckWebSite (config p)) (Seconds (CheckTimeout (config p))) io = (ok, h', p')"
  shows "checkTurn h p f wait io
           = (h', p', if ok then 1
                      else (let w = (if wait = 0 then 1 else wait); w = w * 2 in if w > 16 then 16 else w))"
  unfolding checkTurn_def
  by (simp only: if_not_P [OF c1] if_not_P [OF c2] c3 prod.case Let_def if_distrib [of "Pair h'"]
      if_distrib [of "Pair p'"])

lemma checkTurn_values:
  assumes "checkTurn h p f wait io = (h', p', w)" "wait \<in> {0, 1, 2, 4, 8, 16}"
  shows "w \<in> {0, 1, 2, 4, 8, 16}"
proof -
  obtain ok h1 p1 where c: "checkWebSite h p f (CheckWebSite (config p)) (Seconds (CheckTimeout (config p))) io = (ok, h1, p1)"
    by (cases "checkWebSite h p f (CheckWebSite (config p)) (Seconds (CheckTimeout (config p))) io")
  show ?thesis
    using assms c by (auto simp: checkTurn_def Let_def split: if_splits)
qed

lemma checkTurns_values:
  assumes "checkTurns h p f wait ios = (h', p', w)" "wait \<in> {0, 1, 2, 4, 8, 16}"
  shows "w \<in> {0, 1, 2, 4, 8, 16}"
  using assms
proof (induction ios arbitrary: h p wait)
  case Nil
  then show ?case by simp
next
  case (Cons io ios)
  obtain h1 p1 w1 where t: "checkTurn h p f wait io = (h1, p1, w1)"
    by (cases "checkTurn h p f wait io")
  have "w1 \<in> {0, 1, 2, 4, 8, 16}" using t Cons.prems(2) by (rule checkTurn_values)
  moreover have "checkTurns h1 p1 f w1 ios = (h', p', w)" using Cons.prems(1) t by simp
  ultimately show ?case by (rule Cons.IH [rotated])
qed

text \<open>
  Claim C7, amended.  In a turn of the loop that runs the probe, for every value of the
  counter up to 127: a successful probe sets \<open>wait\<close> to 1 and a failed probe sets it to
  twice \<open>max(1, wait)\<close>, capped at 16; a failure from \<open>wait = 0\<close> gives 2.  The values that
  the counter takes in the loop are 0, 1, 2, 4, 8 and 16.
\<close>

theorem checkTurn_wait:
  "(\<not> (wait > 0 \<and> Priority (h ! f) < priority p) \<and> \<not> (Enabled (h ! f) \<and> CheckDisabledOnly (config p))
     \<and> checkWebSite h p f (CheckWebSite (config p)) (Seconds (CheckTimeout (config p))) io = (ok, h', p')
     \<and> unat wait \<le> 127
     \<longrightarrow> (\<exists>w. checkTurn h p f wait io = (h', p', w)
              \<and> unat w = (if ok then 1 else min 16 (2 * max 1 (unat wait)))))
   \<and> (check h0 p0 f0 ios = (h1, p1, w1) \<longrightarrow> w1 \<in> {0, 1, 2, 4, 8, 16})"
proof (rule conjI)
  show "check h0 p0 f0 ios = (h1, p1, w1) \<longrightarrow> w1 \<in> {0, 1, 2, 4, 8, 16}"
    using checkTurns_values [of h0 p0 f0 0 ios h1 p1 w1] by (simp add: check_def)
  show "\<not> (wait > 0 \<and> Priority (h ! f) < priority p) \<and> \<not> (Enabled (h ! f) \<and> CheckDisabledOnly (config p))
     \<and> checkWebSite h p f (CheckWebSite (config p)) (Seconds (CheckTimeout (config p))) io = (ok, h', p')
     \<and> unat wait \<le> 127
     \<longrightarrow> (\<exists>w. checkTurn h p f wait io = (h', p', w)
              \<and> unat w = (if ok then 1 else min 16 (2 * max 1 (unat wait))))"
  proof
    assume a: "\<not> (wait > 0 \<and> Priority (h ! f) < priority p) \<and> \<not> (Enabled (h ! f) \<and> CheckDisabledOnly (config p))
     \<and> checkWebSite h p f (CheckWebSite (config p)) (Seconds (CheckTimeout (config p))) io = (ok, h', p')
     \<and> unat wait \<le> 127"
    then have t: "checkTurn h p f wait io
           = (h', p', if ok then 1
                      else (let w = (if wait = 0 then 1 else wait); w = w * 2 in if w > 16 then 16 else w))"
      by (intro checkTurn_probe) simp_all
    have "unat (if ok then 1
                      else (let w = (if wait = 0 then 1 else wait); w = w * 2 in if w > 16 then 16 else w))
          = (if ok then 1 else min 16 (2 * max 1 (unat wait)))"
      using wait_backoff [of wait] a by simp
    then show "\<exists>w. checkTurn h p f wait io = (h', p', w)
              \<and> unat w = (if ok then 1 else min 16 (2 * max 1 (unat wait)))"
      using t by blast
  qed
qed

lemma checkTurn_failedDial:
  assumes "\<not> CheckDisabledOnly (config p)"
  shows "snd (snd (checkTurn h p f 0 failedDial)) = 2"
proof -
  obtain h' p' where d: "Disable h p f = (h', p')" by (cases "Disable h p f")
  then have c: "checkWebSite h p f (CheckWebSite (config p)) (Seconds (CheckTimeout (config p))) failedDial
                  = (False, h', p')"
    by (simp add: checkWebSite_def failedDial_def)
  have "checkTurn h p f 0 failedDial
           = (h', p', if False then 1
                      else (let w = (if (0 :: 8 word) = 0 then 1 else 0); w = w * 2 in if w > 16 then 16 else w))"
    using _ _ c by (rule checkTurn_probe) (use assms in simp_all)
  then show ?thesis by simp
qed

text \<open>A failed dial in the first turn, and two failed dials in a row.\<close>

theorem checkTurn_wait_witness:
  "snd (snd (checkTurn (demoHeap emptyConfig) (demoGroup emptyConfig) 0 0 failedDial)) = 2
   \<and> snd (snd (check (demoHeap emptyConfig) (demoGroup emptyConfig) 0 [failedDial, failedDial]))
       \<in> {0, 1, 2, 4, 8, 16}"
proof -
  let ?h = "demoHeap emptyConfig" and ?p = "demoGroup emptyConfig"
  obtain h' p' where d: "Disable ?h ?p 0 = (h', p')" by (cases "Disable ?h ?p 0")
  then have c: "checkWebSite ?h ?p 0 (CheckWebSite (config ?p)) (Seconds (CheckTimeout (config ?p))) failedDial
                  = (False, h', p')"
    by (simp add: checkWebSite_def failedDial_def)
  obtain h1 p1 w1 where k: "check ?h ?p 0 [failedDial, failedDial] = (h1, p1, w1)"
    by (cases "check ?h ?p 0 [failedDial, failedDial]")
  have n: "\<not> CheckDisabledOnly (config ?p)" by (simp add: demoGroup_def emptyConfig_def)
  note th = checkTurn_wait [of 0 ?h 0 ?p failedDial False h' p' ?h ?p 0 "[failedDial, failedDial]" h1 p1 w1]
  have "\<exists>w. checkTurn ?h ?p 0 0 failedDial = (h', p', w) \<and> unat w = 2"
    using th c n by simp
  then obtain w where w: "checkTurn ?h ?p 0 0 failedDial = (h', p', w)" "unat w = 2" by blast
  have "w = 2" using w(2) by (simp add: word_unat_eq_iff)
  then have "snd (snd (checkTurn ?h ?p 0 0 failedDial)) = 2" by (simp add: w(1))
  moreover have "w1 \<in> {0, 1, 2, 4, 8, 16}" using th k by simp
  ultimately show ?thesis by (simp add: k)
qed

text \<open>Claim C7 as stated fails: after a failed probe from \<open>wait = 0\<close> the counter is 2, not 1.\<close>

theorem backoff_from_zero_counterexample:
  "snd (snd (checkTurn (demoHeap emptyConfig) (demoGroup emptyConfig) 0 0 failedDial)) = 2
   \<and> snd (snd (checkTurn (demoHeap emptyConfig) (demoGroup emptyConfig) 0 0 failedDial)) \<noteq> 1"
proof -
  have "\<not> CheckDisabledOnly (config (demoGroup emptyConfig))"
    by (simp add: demoGroup_def emptyConfig_def)
  then have "snd (snd (checkTurn (demoHeap emptyConfig) (demoGroup emptyConfig) 0 0 failedDial)) = 2"
    by (rule checkTurn_failedDial)
  then show ?thesis by simp
qed

section \<open>The rule router\<close>

subsection \<open>The loop over the domain map\<close>

lemma lastIndexFrom_append:
  "lastIndexFrom (xs @ ys) c k found
     = lastIndexFrom ys c (k + int (length xs)) (lastIndexFrom xs c k found)"
  by (induction xs arbitrary: k found) (simp_all add: add.assoc)

lemma LastIndexByte_snoc:
  "LastIndexByte (s @ [x]) c = (if x = c then int (length s) else LastIndexByte s c)"
  by (simp add: LastIndexByte_def lastIndexFrom_append)

lemma dotsBelow_Suc:
  "dotsBelow host (Suc i) = (if host ! i = CHR ''.'' then i # dotsBelow host i else dotsBelow host i)"
  by (simp add: dotsBelow_def)

lemma dotsBelow_Cons:
  "dotsBelow host i = j # js \<Longrightarrow> j < i \<and> js = dotsBelow host j"
proof (induction i)
  case 0
  then show ?case by (simp add: dotsBelow_def)
next
  case (Suc i)
  then show ?case by (auto simp: dotsBelow_Suc split: if_splits)
qed

lemma LastIndexByte_take:
  "i \<le> length host \<Longrightarrow>
     LastIndexByte (take i host) CHR ''.'' = (case dotsBelow host i of [] \<Rightarrow> - 1 | j # js \<Rightarrow> int j)"
proof (induction i)
  case 0
  then show ?case by (simp add: LastIndexByte_def dotsBelow_def)
next
  case (Suc i)
  then have "take (Suc i) host = take i host @ [host ! i]" by (simp add: take_Suc_conv_app_nth)
  then show ?case using Suc by (simp add: LastIndexByte_snoc dotsBelow_Suc)
qed

lemma domainLoop_keys:
  "i \<le> length host \<Longrightarrow>
     domainLoop dm host (int i)
       = Inr (firstHit dm (map (\<lambda>j. drop (Suc j) host) (dotsBelow host i) @ [host]))"
proof (induction i rule: less_induct)
  case (less i)
  have u: "domainLoop dm host (int i)
     = (let i' = LastIndexByte (take i host) CHR ''.'' in
            case dm (drop (nat (i' + 1)) host) of
              Some g \<Rightarrow> Inr (Some g)
            | None \<Rightarrow> domainLoop dm host i')"
    using less.prems by (subst domainLoop.simps) simp
  show ?case
  proof (cases "dotsBelow host i")
    case Nil
    then have "LastIndexByte (take i host) CHR ''.'' = - 1"
      using less.prems by (simp add: LastIndexByte_take)
    then show ?thesis
      using Nil by (simp add: u domainLoop.simps [of dm host "- 1"] split: option.splits)
  next
    case (Cons j js)
    then have j: "j < i" "js = dotsBelow host j" using dotsBelow_Cons by blast+
    have l: "LastIndexByte (take i host) CHR ''.'' = int j"
      using less.prems Cons by (simp add: LastIndexByte_take)
    have ih: "domainLoop dm host (int j)
       = Inr (firstHit dm (map (\<lambda>j. drop (Suc j) host) (dotsBelow host j) @ [host]))"
      using j(1) less.prems by (intro less.IH) simp_all
    have n: "nat (int j + 1) = Suc j" by simp
    show ?thesis
      using Cons j(2) ih by (simp add: u l n split: option.splits)
  qed
qed

lemma domainLoop_probeKeys:
  "domainLoop dm host (int (length host)) = Inr (firstHit dm (probeKeys host))"
  using domainLoop_keys [of "length host" host dm] by (simp add: probeKeys_def dotsBelow_def)


subsection \<open>Destinations whose host is a name\<close>

lemma nextProxy_names:
  assumes "SplitHostPort nlib dstAddr = Some (host, port)" "ParseIP nlib host = None"
  shows "nextProxy slib nlib p dstAddr
           = Inr (case firstHit (domainMap p) (probeKeys (ToLower slib host)) of
                    Some g \<Rightarrow> g | None \<Rightarrow> proxy p)"
  using assms by (simp add: nextProxy_def Let_def domainLoop_probeKeys split: option.splits)

lemma example_rules: "rule_NewProxy ascii ipv4net byName exampleRules ''D'' = Inr exampleRouter"
  by (simp add: rule_NewProxy_def exampleRules_def domainRule_def byName_def addRule_def
      exampleRouter_def ascii_def asciiLower_def ipv4net_def)

lemma example_split:
  "goSplitHostPort ''x.api.example.com:443'' = Some (''x.api.example.com'', ''443'')"
  "goSplitHostPort ''www.example.com:443'' = Some (''www.example.com'', ''443'')"
  by (simp_all add: goSplitHostPort_def LastIndexByte_def IndexByte_def Let_def)

lemma example_parseIP:
  "goParseIP ''x.api.example.com'' = None" "goParseIP ''www.example.com'' = None"
  by (simp_all add: goParseIP_def parseIPv4_def dtoi_def isDigit_def numeral_eq_Suc)

lemma example_lower:
  "ToLower ascii ''x.api.example.com'' = ''x.api.example.com''"
  "ToLower ascii ''www.example.com'' = ''www.example.com''"
  by (simp_all add: ascii_def asciiLower_def)

lemma example_keys:
  "probeKeys ''x.api.example.com'' = [''com'', ''example.com'', ''api.example.com'', ''x.api.example.com'']"
  "probeKeys ''www.example.com'' = [''com'', ''example.com'', ''www.example.com'']"
  "probeKeys ''a.b.example.com'' = [''com'', ''example.com'', ''b.example.com'', ''a.b.example.com'']"
  by (simp_all add: probeKeys_def upt_rec [of _ "numeral _"])

lemma example_lookup:
  "nextProxy ascii ipv4net exampleRouter ''x.api.example.com:443'' = Inr ''R1''"
proof -
  have "nextProxy ascii ipv4net exampleRouter ''x.api.example.com:443''
          = Inr (case firstHit (domainMap exampleRouter) (probeKeys (ToLower ascii ''x.api.example.com'')) of
                    Some g \<Rightarrow> g | None \<Rightarrow> proxy exampleRouter)"
    by (rule nextProxy_names [where port = "''443''"]) (simp_all add: ipv4net_def example_split example_parseIP)
  then show ?thesis
    unfolding example_lower example_keys by (simp add: exampleRouter_def)
qed

text \<open>
  Claim C1, amended.  For a destination whose host is not a numeric IP, \<open>nextProxy\<close>
  looks the lower-cased host up by its dot-suffixes from the shortest to the longest:
  the part after the last dot first, then the part after each earlier dot, the whole
  host last (for \<open>a.b.example.com\<close> the keys \<open>com\<close>, \<open>example.com\<close>, \<open>b.example.com\<close>,
  \<open>a.b.example.com\<close>), and returns the group of the first key that the domain map
  holds, the default group when it holds none.  With group \<open>R1\<close> on \<open>example.com\<close> and
  group \<open>R2\<close> on \<open>api.example.com\<close>, the destination \<open>x.api.example.com:443\<close> goes to
  \<open>R1\<close>.
\<close>

theorem nextProxy_domain_lookup:
  "(SplitHostPort nlib dstAddr = Some (host, port) \<and> ParseIP nlib host = None \<longrightarrow>
      nextProxy slib nlib p dstAddr
        = Inr (case firstHit (domainMap p) (probeKeys (ToLower slib host)) of
                 Some g \<Rightarrow> g | None \<Rightarrow> proxy p))
   \<and> probeKeys ''a.b.example.com'' = [''com'', ''example.com'', ''b.example.com'', ''a.b.example.com'']
   \<and> rule_NewProxy ascii ipv4net byName exampleRules ''D'' = Inr exampleRouter
   \<and> nextProxy ascii ipv4net exampleRouter ''x.api.example.com:443'' = Inr ''R1''"
  using nextProxy_names [of nlib dstAddr host port slib p] example_keys(3) example_rules example_lookup
  by blast

text \<open>The destination \<open>www.example.com:443\<close> with the rules of the scenario.\<close>

theorem nextProxy_domain_lookup_witness:
  "SplitHostPort ipv4net ''www.example.com:443'' = Some (''www.example.com'', ''443'')
   \<and> ParseIP ipv4net ''www.example.com'' = None
   \<and> nextProxy ascii ipv4net exampleRouter ''www.example.com:443'' = Inr ''R1''"
proof -
  have a: "SplitHostPort ipv4net ''www.example.com:443'' = Some (''www.example.com'', ''443'')"
    and b: "ParseIP ipv4net ''www.example.com'' = None"
    by (simp_all add: ipv4net_def example_split example_parseIP)
  have "nextProxy ascii ipv4net exampleRouter ''www.example.com:443''
        = Inr (case firstHit (domainMap exampleRouter) (probeKeys (ToLower ascii ''www.example.com'')) of
                 Some g \<Rightarrow> g | None \<Rightarrow> proxy exampleRouter)"
    using nextProxy_domain_lookup [of ipv4net "''www.example.com:443''" "''www.example.com''" "''443''"
        ascii exampleRouter] a b by blast
  then have "nextProxy ascii ipv4net exampleRouter ''www.example.com:443'' = Inr ''R1''"
    unfolding example_lower example_keys by (simp add: exampleRouter_def)
  then show ?thesis using a b by simp
qed

text \<open>
  Claim C1 as stated fails: with the rules of the scenario \<open>x.api.example.com:443\<close> goes
  to \<open>R1\<close>, the group of the shorter suffix \<open>example.com\<close>, not to \<open>R2\<close>.
\<close>

theorem longest_suffix_counterexample:
  "rule_NewProxy ascii ipv4net byName exampleRules ''D'' = Inr exampleRouter
   \<and> nextProxy ascii ipv4net exampleRouter ''x.api.example.com:443'' = Inr ''R1''
   \<and> nextProxy ascii ipv4net exampleRouter ''x.api.example.com:443'' \<noteq> Inr ''R2''"
  using example_rules example_lookup by simp

end
